theory Spec2Isabelle
  imports Complex_Main "HOL-Library.Word" "HOL-Library.Signed_Division" "HOL-Library.Multiset"
begin

unbundle bit_operations_syntax

section \<open>HashMap.hpp: the data model\<close>

text \<open>
  The class template \<^verbatim>\<open>HashMap<KeyT, ValueT>\<close> keeps five private members:
  \<^verbatim>\<open>long _capacity, _size\<close>, \<^verbatim>\<open>double _upperLoadFactor, _lowerLoadFactor\<close> and the bucket
  array \<^verbatim>\<open>vector<pair<KeyT, ValueT>> *_table\<close>, allocated with \<^verbatim>\<open>new[]\<close> to hold
  \<^verbatim>\<open>_capacity\<close> vectors. The record below has one field per member (the leading underscore
  of the source is written \<open>m_\<close>).

  \<^item> \<^verbatim>\<open>long\<close> is a mathematical integer here; the one place where the source can leave the
    range of a 64-bit \<^verbatim>\<open>long\<close> with inputs it can really receive, the doubling loop of
    \<^verbatim>\<open>_keepUpperLoadFactor\<close>, checks the range explicitly. The entry count \<^verbatim>\<open>_size\<close> is not
    range-checked: every entry occupies memory, so it stays far below \<open>2^63\<close>.
  \<^item> The load factors are rationals. Every finite \<^verbatim>\<open>double\<close> is a rational, and the only
    arithmetic done on them is the quotient \<^verbatim>\<open>(double) _size / capacity\<close>, which is exact
    in binary floating point when the capacity is a power of two and the size is below
    \<open>2^53\<close>. NaN and infinite bounds are outside the model.
  \<^item> The bucket array is a list of buckets, a bucket the list of its pairs in insertion
    order. The length of the list is the length of the allocated array.
  \<^item> \<^verbatim>\<open>std::hash<KeyT>\<close> is a parameter \<open>h\<close> of every operation that hashes a key; its
    result type \<^verbatim>\<open>size_t\<close> is a 64-bit word.
  \<^item> Exceptions and the other ways a call can fail to return a value are the
    constructors of \<open>error\<close>; an operation returns \<open>Inl e\<close> where the source throws or has no
    defined behaviour, and \<open>Inr\<close> of its result (with the updated table) otherwise.
    Running out of memory is not modelled.
\<close>

datatype error =
    invalid_argument      \<comment> \<open>\<^verbatim>\<open>throw std::invalid_argument\<close>\<close>
  | out_of_range          \<comment> \<open>\<^verbatim>\<open>throw std::out_of_range\<close>\<close>
  | exit_failure          \<comment> \<open>\<^verbatim>\<open>exit(EXIT_FAILURE)\<close> in a \<^verbatim>\<open>catch (std::bad_alloc &)\<close>\<close>
  | undefined_behaviour   \<comment> \<open>signed overflow, an access outside an array, a loop that never ends\<close>

type_synonym ('k, 'v) bucket = "('k \<times> 'v) list"

record ('k, 'v) HashMap =
  m_capacity :: int
  m_size :: int
  m_upperLoadFactor :: rat
  m_lowerLoadFactor :: rat
  m_table :: "('k, 'v) bucket list"

definition TABLE_FACTOR :: int where
  "TABLE_FACTOR = 2"

definition INITIAL_CAPACITY :: int where
  "INITIAL_CAPACITY = 16"

definition DEFAULT_LOWER_LOAD_FACTOR :: rat where
  "DEFAULT_LOWER_LOAD_FACTOR = 1 / 4"

definition DEFAULT_UPPER_LOAD_FACTOR :: rat where
  "DEFAULT_UPPER_LOAD_FACTOR = 3 / 4"

definition LONG_MAX :: int where
  "LONG_MAX = 2 ^ 63 - 1"

definition LONG_MIN :: int where
  "LONG_MIN = - (2 ^ 63)"

definition INT_MAX :: int where
  "INT_MAX = 2 ^ 31 - 1"

subsection \<open>Indexing the bucket array\<close>

text \<open>
  \<^verbatim>\<open>_getIndex\<close> returns \<^verbatim>\<open>std::hash<KeyT>{}(key) & (tableSize - 1)\<close>: the \<^verbatim>\<open>long\<close> operand is
  converted to \<^verbatim>\<open>size_t\<close>, the conjunction is taken on 64 bits and the result is converted
  back to \<^verbatim>\<open>long\<close>.
\<close>

definition getIndex :: "('k \<Rightarrow> 64 word) \<Rightarrow> 'k \<Rightarrow> int \<Rightarrow> int" where
  "getIndex h key tableSize = sint (h key AND word_of_int (tableSize - 1))"

text \<open>
  \<^verbatim>\<open>table[i]\<close> on the array: defined for \<open>0 \<le> i\<close> below the array's length, undefined
  behaviour elsewhere.
\<close>

definition bucketAt :: "('k, 'v) bucket list \<Rightarrow> int \<Rightarrow> error + ('k, 'v) bucket" where
  "bucketAt tbl i =
     (if 0 \<le> i \<and> i < int (length tbl) then Inr (tbl ! nat i) else Inl undefined_behaviour)"

subsection \<open>The loops over one bucket\<close>

text \<open>The \<^verbatim>\<open>for\<close> loop of \<^verbatim>\<open>containsKey\<close>: true at the first pair with the key.\<close>

fun bucketContains :: "'k \<Rightarrow> ('k, 'v) bucket \<Rightarrow> bool" where
  "bucketContains key [] = False"
| "bucketContains key (p # ps) = (if fst p = key then True else bucketContains key ps)"

text \<open>The loop of \<^verbatim>\<open>at\<close> and of \<^verbatim>\<open>operator[]\<close>: the value of the first pair with the key.\<close>

fun bucketFind :: "'k \<Rightarrow> ('k, 'v) bucket \<Rightarrow> 'v option" where
  "bucketFind key [] = None"
| "bucketFind key (p # ps) = (if fst p = key then Some (snd p) else bucketFind key ps)"

text \<open>
  The loop of \<^verbatim>\<open>erase\<close>: \<^verbatim>\<open>bucket.erase(i)\<close> at the first pair with the key, \<open>None\<close> when
  the loop ends without finding one.
\<close>

fun bucketErase :: "'k \<Rightarrow> ('k, 'v) bucket \<Rightarrow> ('k, 'v) bucket option" where
  "bucketErase key [] = None"
| "bucketErase key (p # ps) =
     (if fst p = key then Some ps
      else (case bucketErase key ps of None \<Rightarrow> None | Some ps' \<Rightarrow> Some (p # ps')))"

text \<open>
  The inner loop of the bulk-load constructor: \<^verbatim>\<open>j->second = valueVector[i]\<close> at every
  pair with the key.
\<close>

fun bucketAssign :: "'k \<Rightarrow> 'v \<Rightarrow> ('k, 'v) bucket \<Rightarrow> ('k, 'v) bucket" where
  "bucketAssign key v [] = []"
| "bucketAssign key v (p # ps) =
     (if fst p = key then (fst p, v) # bucketAssign key v ps else p # bucketAssign key v ps)"

text \<open>\<^verbatim>\<open>_addToTable\<close>: \<^verbatim>\<open>push_back\<close> on the bucket the key hashes to.\<close>

definition addToTable ::
  "('k \<Rightarrow> 64 word) \<Rightarrow> 'k \<Rightarrow> 'v \<Rightarrow> ('k, 'v) bucket list \<Rightarrow> int \<Rightarrow> error + ('k, 'v) bucket list"
where
  "addToTable h key v tbl tableSize =
     (case bucketAt tbl (getIndex h key tableSize) of
        Inl e \<Rightarrow> Inl e
      | Inr b \<Rightarrow> Inr (tbl[nat (getIndex h key tableSize) := b @ [(key, v)]]))"

subsection \<open>Queries\<close>

text \<open>
  The comparisons \<^verbatim>\<open>(double) size / capacity > upper\<close> and \<^verbatim>\<open>... < lower\<close>. With a
  capacity of 0 the quotient of doubles is \<open>+\<infinity>\<close>, \<open>-\<infinity>\<close> or NaN (for a positive, negative
  or zero size), and a comparison with NaN is false.
\<close>

definition loadAbove :: "int \<Rightarrow> int \<Rightarrow> rat \<Rightarrow> bool" where
  "loadAbove sz cap u = (if cap = 0 then 0 < sz else of_int sz / of_int cap > u)"

definition loadBelow :: "int \<Rightarrow> int \<Rightarrow> rat \<Rightarrow> bool" where
  "loadBelow sz cap l = (if cap = 0 then sz < 0 else of_int sz / of_int cap < l)"

definition containsKey :: "('k \<Rightarrow> 64 word) \<Rightarrow> 'k \<Rightarrow> ('k, 'v) HashMap \<Rightarrow> error + bool" where
  "containsKey h key t =
     (case bucketAt (m_table t) (getIndex h key (m_capacity t)) of
        Inl e \<Rightarrow> Inl e
      | Inr b \<Rightarrow> Inr (bucketContains key b))"

definition at_key :: "('k \<Rightarrow> 64 word) \<Rightarrow> 'k \<Rightarrow> ('k, 'v) HashMap \<Rightarrow> error + 'v" where
  "at_key h key t =
     (case bucketAt (m_table t) (getIndex h key (m_capacity t)) of
        Inl e \<Rightarrow> Inl e
      | Inr b \<Rightarrow> (case bucketFind key b of None \<Rightarrow> Inl out_of_range | Some v \<Rightarrow> Inr v))"

section \<open>The iterator \<^verbatim>\<open>PointerToPair\<close>\<close>

text \<open>
  The iterator holds a reference to its table, the flag \<^verbatim>\<open>_end\<close>, the index
  \<^verbatim>\<open>_bucketIndex\<close> and a vector iterator \<^verbatim>\<open>_vectorIterator\<close>. A vector iterator is a
  position in one of the table's vectors: the pair of the vector's index in the bucket
  array and the offset in that vector. Positions in different vectors are different, which
  is what the comparison of two vector iterators decides as long as no vector's storage
  ends where another's begins.
\<close>

record PointerToPair =
  it_end :: bool
  it_bucketIndex :: int
  it_vectorIterator :: "int \<times> nat"

text \<open>
  The \<^verbatim>\<open>while\<close> loop of \<^verbatim>\<open>_getNextBucketAndIterator\<close>:
  \<^verbatim>\<open>while (_bucketIndex < _capacity && _table[_bucketIndex].empty()) ++_bucketIndex;\<close>
\<close>

function skipEmpty :: "('k, 'v) HashMap \<Rightarrow> int \<Rightarrow> error + int" where
  "skipEmpty t bi =
     (if bi < m_capacity t then
        (case bucketAt (m_table t) bi of
           Inl e \<Rightarrow> Inl e
         | Inr b \<Rightarrow> if b = [] then skipEmpty t (bi + 1) else Inr bi)
      else Inr bi)"
  by pat_completeness auto
termination
  by (relation "measure (\<lambda>(t, bi). nat (m_capacity t - bi))") auto

declare skipEmpty.simps [simp del]

text \<open>\<^verbatim>\<open>table[i].end()\<close> as a position.\<close>

definition bucketEnd :: "('k, 'v) HashMap \<Rightarrow> int \<Rightarrow> error + (int \<times> nat)" where
  "bucketEnd t i =
     (case bucketAt (m_table t) i of Inl e \<Rightarrow> Inl e | Inr b \<Rightarrow> Inr (i, length b))"

definition getNextBucketAndIterator ::
  "('k, 'v) HashMap \<Rightarrow> PointerToPair \<Rightarrow> error + PointerToPair" where
  "getNextBucketAndIterator t it =
     (case skipEmpty t (it_bucketIndex it) of
        Inl e \<Rightarrow> Inl e
      | Inr bi \<Rightarrow>
          if bi \<noteq> m_capacity t then
            (case bucketAt (m_table t) bi of
               Inl e \<Rightarrow> Inl e
             | Inr b \<Rightarrow> Inr (it\<lparr>it_bucketIndex := bi, it_vectorIterator := (bi, 0)\<rparr>))
          else
            (case bucketEnd t (m_capacity t - 1) of
               Inl e \<Rightarrow> Inl e
             | Inr p \<Rightarrow> Inr (it\<lparr>it_bucketIndex := bi, it_vectorIterator := p, it_end := True\<rparr>)))"

text \<open>
  The constructor \<^verbatim>\<open>PointerToPair(hashMap, end)\<close>. The value-initialised
  \<^verbatim>\<open>_vectorIterator()\<close> is overwritten by both branches of
  \<^verbatim>\<open>_getNextBucketAndIterator\<close> before it is read; \<open>(0, 0)\<close> stands for it.
\<close>

definition PointerToPair_new :: "('k, 'v) HashMap \<Rightarrow> bool \<Rightarrow> error + PointerToPair" where
  "PointerToPair_new t e =
     (case getNextBucketAndIterator t
             \<lparr>it_end = e, it_bucketIndex = 0, it_vectorIterator = (0, 0)\<rparr> of
        Inl err \<Rightarrow> Inl err
      | Inr it \<Rightarrow>
          if it_end it then
            (case bucketEnd t (m_capacity t - 1) of
               Inl err \<Rightarrow> Inl err
             | Inr p \<Rightarrow> Inr (it\<lparr>it_vectorIterator := p\<rparr>))
          else Inr it)"

definition begin_it :: "('k, 'v) HashMap \<Rightarrow> error + PointerToPair" where
  "begin_it t = PointerToPair_new t False"

definition end_it :: "('k, 'v) HashMap \<Rightarrow> error + PointerToPair" where
  "end_it t = PointerToPair_new t True"

text \<open>\<^verbatim>\<open>operator*\<close>: defined where the vector iterator points at a pair.\<close>

definition deref :: "('k, 'v) HashMap \<Rightarrow> PointerToPair \<Rightarrow> error + ('k \<times> 'v)" where
  "deref t it =
     (case bucketAt (m_table t) (fst (it_vectorIterator it)) of
        Inl e \<Rightarrow> Inl e
      | Inr b \<Rightarrow>
          if snd (it_vectorIterator it) < length b then Inr (b ! snd (it_vectorIterator it))
          else Inl undefined_behaviour)"

text \<open>
  Prefix \<^verbatim>\<open>operator++\<close>. Incrementing a vector iterator is defined where it points at a
  pair.
\<close>

definition increment :: "('k, 'v) HashMap \<Rightarrow> PointerToPair \<Rightarrow> error + PointerToPair" where
  "increment t it =
     (case deref t it of
        Inl e \<Rightarrow> Inl e
      | Inr _ \<Rightarrow>
          (let it1 = it\<lparr>it_vectorIterator :=
                         (fst (it_vectorIterator it), Suc (snd (it_vectorIterator it)))\<rparr>
           in case bucketEnd t (it_bucketIndex it1) of
                Inl e \<Rightarrow> Inl e
              | Inr p \<Rightarrow>
                  if it_vectorIterator it1 = p then
                    getNextBucketAndIterator t (it1\<lparr>it_bucketIndex := it_bucketIndex it1 + 1\<rparr>)
                  else Inr it1))"

text \<open>\<^verbatim>\<open>operator==\<close> of two iterators over the same table.\<close>

definition it_equal :: "PointerToPair \<Rightarrow> PointerToPair \<Rightarrow> bool" where
  "it_equal a b = ((it_end a \<and> it_end b) \<or> it_vectorIterator a = it_vectorIterator b)"

text \<open>
  The traversal \<^verbatim>\<open>for (iterator i = begin(); i != end(); ++i)\<close>, which the range-based
  \<^verbatim>\<open>for (const pair<KeyT, ValueT> &p: other)\<close> abbreviates: \<open>visitFrom t i acc\<close> appends to
  \<open>acc\<close> the pairs visited from \<open>i\<close> on. The loop need not end for an iterator that does not
  come from \<open>begin_it\<close>, so it is a partial function; \<open>None\<close> is a run that does not return a
  sequence.
\<close>

partial_function (option) visitFrom ::
  "('k, 'v) HashMap \<Rightarrow> PointerToPair \<Rightarrow> ('k \<times> 'v) list \<Rightarrow> ('k \<times> 'v) list option" where
  "visitFrom t i acc =
     (case end_it t of
        Inl e \<Rightarrow> None
      | Inr e \<Rightarrow>
          if it_equal i e then Some acc
          else (case deref t i of
                  Inl e \<Rightarrow> None
                | Inr p \<Rightarrow>
                    (case increment t i of
                       Inl e \<Rightarrow> None
                     | Inr i' \<Rightarrow> visitFrom t i' (acc @ [p]))))"

declare visitFrom.simps [code]

definition entries :: "('k, 'v) HashMap \<Rightarrow> error + ('k \<times> 'v) list" where
  "entries t =
     (case begin_it t of
        Inl e \<Rightarrow> Inl e
      | Inr i \<Rightarrow>
          (case visitFrom t i [] of None \<Rightarrow> Inl undefined_behaviour | Some ps \<Rightarrow> Inr ps))"

section \<open>Resizing\<close>

text \<open>
  \<^verbatim>\<open>_reHash(newCapacity)\<close>: \<^verbatim>\<open>new vector<pair<KeyT, ValueT>>[newCapacity]\<close>, then
  \<^verbatim>\<open>_addToTable\<close> into the new array for every pair the traversal of the old one visits, then
  the new array and the new capacity replace the old ones. A negative length makes
  \<^verbatim>\<open>new[]\<close> throw \<^verbatim>\<open>std::bad_array_new_length\<close>, which is a \<^verbatim>\<open>std::bad_alloc\<close>, and the
  handler exits. The traversal reads the old array only and \<^verbatim>\<open>_addToTable\<close> writes the new
  one only, so the loop is a fold of \<^verbatim>\<open>_addToTable\<close> over the visited sequence.
\<close>

fun addAll ::
  "('k \<Rightarrow> 64 word) \<Rightarrow> ('k \<times> 'v) list \<Rightarrow> ('k, 'v) bucket list \<Rightarrow> int \<Rightarrow> error + ('k, 'v) bucket list"
where
  "addAll h [] tbl tableSize = Inr tbl"
| "addAll h (p # ps) tbl tableSize =
     (case addToTable h (fst p) (snd p) tbl tableSize of
        Inl e \<Rightarrow> Inl e
      | Inr tbl' \<Rightarrow> addAll h ps tbl' tableSize)"

definition reHash :: "('k \<Rightarrow> 64 word) \<Rightarrow> int \<Rightarrow> ('k, 'v) HashMap \<Rightarrow> error + ('k, 'v) HashMap" where
  "reHash h newCapacity t =
     (if newCapacity < 0 then Inl exit_failure
      else
        (case entries t of
           Inl e \<Rightarrow> Inl e
         | Inr ps \<Rightarrow>
             (case addAll h ps (replicate (nat newCapacity) []) newCapacity of
                Inl e \<Rightarrow> Inl e
              | Inr newTable \<Rightarrow> Inr (t\<lparr>m_table := newTable, m_capacity := newCapacity\<rparr>))))"

text \<open>
  The loop of \<^verbatim>\<open>_keepUpperLoadFactor\<close>:
  \<^verbatim>\<open>while (((double) _size / newCapacity) > _upperLoadFactor) newCapacity *= TABLE_FACTOR;\<close>
  The product must stay in the range of \<^verbatim>\<open>long\<close>; with \<open>newCapacity = 0\<close> and a positive
  size the loop changes nothing and never ends.
\<close>

function growCapacity :: "int \<Rightarrow> rat \<Rightarrow> int \<Rightarrow> error + int" where
  "growCapacity sz upper newCapacity =
     (if loadAbove sz newCapacity upper then
        (if newCapacity = 0 \<or> newCapacity * TABLE_FACTOR > LONG_MAX
            \<or> newCapacity * TABLE_FACTOR < LONG_MIN
         then Inl undefined_behaviour
         else growCapacity sz upper (newCapacity * TABLE_FACTOR))
      else Inr newCapacity)"
  by pat_completeness auto
termination
  by (relation "measure (\<lambda>(sz, upper, c). nat (2 ^ 63 - \<bar>c\<bar>))")
     (auto simp: TABLE_FACTOR_def LONG_MAX_def LONG_MIN_def)

declare growCapacity.simps [simp del]

definition keepUpperLoadFactor ::
  "('k \<Rightarrow> 64 word) \<Rightarrow> ('k, 'v) HashMap \<Rightarrow> error + ('k, 'v) HashMap" where
  "keepUpperLoadFactor h t =
     (if loadAbove (m_size t) (m_capacity t) (m_upperLoadFactor t) then
        (case growCapacity (m_size t) (m_upperLoadFactor t) (m_capacity t) of
           Inl e \<Rightarrow> Inl e
         | Inr newCapacity \<Rightarrow> reHash h newCapacity t)
      else Inr t)"

text \<open>
  \<^verbatim>\<open>_keepLowerLoadFactor\<close>; \<^verbatim>\<open>_capacity / TABLE_FACTOR\<close> is the division of C++, which
  truncates.
\<close>

definition keepLowerLoadFactor ::
  "('k \<Rightarrow> 64 word) \<Rightarrow> ('k, 'v) HashMap \<Rightarrow> error + ('k, 'v) HashMap" where
  "keepLowerLoadFactor h t =
     (if loadBelow (m_size t) (m_capacity t) (m_lowerLoadFactor t) \<and> m_capacity t \<noteq> 1 then
        reHash h (m_capacity t sdiv TABLE_FACTOR) t
      else Inr t)"

section \<open>Construction\<close>

text \<open>
  \<^verbatim>\<open>HashMap(lowerLoadFactor, upperLoadFactor)\<close>: the member initialisers build the empty
  table of \<^verbatim>\<open>INITIAL_CAPACITY\<close> buckets, then the body checks the bounds.
\<close>

definition HashMap_new :: "rat \<Rightarrow> rat \<Rightarrow> error + ('k, 'v) HashMap" where
  "HashMap_new lowerLoadFactor upperLoadFactor =
     (if upperLoadFactor < lowerLoadFactor then Inl invalid_argument
      else if lowerLoadFactor < 0 \<or> upperLoadFactor > 1 then Inl invalid_argument
      else Inr \<lparr>m_capacity = INITIAL_CAPACITY, m_size = 0,
                m_upperLoadFactor = upperLoadFactor, m_lowerLoadFactor = lowerLoadFactor,
                m_table = replicate (nat INITIAL_CAPACITY) []\<rparr>)"

definition HashMap_default :: "error + ('k, 'v) HashMap" where
  "HashMap_default = HashMap_new DEFAULT_LOWER_LOAD_FACTOR DEFAULT_UPPER_LOAD_FACTOR"

text \<open>
  \<^verbatim>\<open>HashMap(keyVector, valueVector)\<close>. \<open>fromPairsLoop\<close> is the \<^verbatim>\<open>for\<close> loop over the index
  \<open>i\<close>, run on the pairs \<open>(keyVector[i], valueVector[i])\<close> of two vectors of one length.
  The index is an \<^verbatim>\<open>int\<close>: on vectors of more than \<^verbatim>\<open>INT_MAX\<close> elements \<^verbatim>\<open>++i\<close> overflows.
\<close>

fun fromPairsLoop ::
  "('k \<Rightarrow> 64 word) \<Rightarrow> ('k \<times> 'v) list \<Rightarrow> ('k, 'v) HashMap \<Rightarrow> error + ('k, 'v) HashMap" where
  "fromPairsLoop h [] t = Inr t"
| "fromPairsLoop h (p # ps) t =
     (case containsKey h (fst p) t of
        Inl e \<Rightarrow> Inl e
      | Inr True \<Rightarrow>
          (case bucketAt (m_table t) (getIndex h (fst p) (m_capacity t)) of
             Inl e \<Rightarrow> Inl e
           | Inr b \<Rightarrow>
               fromPairsLoop h ps
                 (t\<lparr>m_table := (m_table t)[nat (getIndex h (fst p) (m_capacity t)) :=
                                              bucketAssign (fst p) (snd p) b]\<rparr>))
      | Inr False \<Rightarrow>
          (case addToTable h (fst p) (snd p) (m_table t) (m_capacity t) of
             Inl e \<Rightarrow> Inl e
           | Inr tbl \<Rightarrow> fromPairsLoop h ps (t\<lparr>m_table := tbl, m_size := m_size t + 1\<rparr>)))"

definition fromPairs ::
  "('k \<Rightarrow> 64 word) \<Rightarrow> 'k list \<Rightarrow> 'v list \<Rightarrow> error + ('k, 'v) HashMap" where
  "fromPairs h keyVector valueVector =
     (case HashMap_default of
        Inl e \<Rightarrow> Inl e
      | Inr t0 \<Rightarrow>
          if length keyVector \<noteq> length valueVector then Inl invalid_argument
          else if INT_MAX < int (length keyVector) then Inl undefined_behaviour
          else
            (case fromPairsLoop h (zip keyVector valueVector) t0 of
               Inl e \<Rightarrow> Inl e
             | Inr t \<Rightarrow> keepUpperLoadFactor h t))"

section \<open>Mutation\<close>

definition insert_key ::
  "('k \<Rightarrow> 64 word) \<Rightarrow> 'k \<Rightarrow> 'v \<Rightarrow> ('k, 'v) HashMap \<Rightarrow> error + (bool \<times> ('k, 'v) HashMap)" where
  "insert_key h key v t =
     (case containsKey h key t of
        Inl e \<Rightarrow> Inl e
      | Inr True \<Rightarrow> Inr (False, t)
      | Inr False \<Rightarrow>
          (case addToTable h key v (m_table t) (m_capacity t) of
             Inl e \<Rightarrow> Inl e
           | Inr tbl \<Rightarrow>
               (case keepUpperLoadFactor h (t\<lparr>m_table := tbl, m_size := m_size t + 1\<rparr>) of
                  Inl e \<Rightarrow> Inl e
                | Inr t' \<Rightarrow> Inr (True, t'))))"

definition erase ::
  "('k \<Rightarrow> 64 word) \<Rightarrow> 'k \<Rightarrow> ('k, 'v) HashMap \<Rightarrow> error + (bool \<times> ('k, 'v) HashMap)" where
  "erase h key t =
     (case bucketAt (m_table t) (getIndex h key (m_capacity t)) of
        Inl e \<Rightarrow> Inl e
      | Inr b \<Rightarrow>
          (case bucketErase key b of
             None \<Rightarrow> Inr (False, t)
           | Some b' \<Rightarrow>
               (case keepLowerLoadFactor h
                       (t\<lparr>m_table := (m_table t)[nat (getIndex h key (m_capacity t)) := b'],
                          m_size := m_size t - 1\<rparr>) of
                  Inl e \<Rightarrow> Inl e
                | Inr t' \<Rightarrow> Inr (True, t'))))"

text \<open>
  \<^verbatim>\<open>operator[]\<close> returns a reference into the table; the model returns the value referred
  to and the table. After \<^verbatim>\<open>push_back\<close> of \<^verbatim>\<open>(key, ValueT())\<close> and the upper-bound check the
  source calls itself, so the function is recursive; \<open>dflt\<close> is \<^verbatim>\<open>ValueT()\<close>.
\<close>

partial_function (option) subscriptRec ::
  "('k \<Rightarrow> 64 word) \<Rightarrow> 'v \<Rightarrow> 'k \<Rightarrow> ('k, 'v) HashMap \<Rightarrow> ('v \<times> ('k, 'v) HashMap) option" where
  "subscriptRec h dflt key t =
     (case bucketAt (m_table t) (getIndex h key (m_capacity t)) of
        Inl e \<Rightarrow> None
      | Inr b \<Rightarrow>
          (case bucketFind key b of
             Some v \<Rightarrow> Some (v, t)
           | None \<Rightarrow>
               (case keepUpperLoadFactor h
                       (t\<lparr>m_table := (m_table t)[nat (getIndex h key (m_capacity t)) :=
                                                    b @ [(key, dflt)]],
                          m_size := m_size t + 1\<rparr>) of
                  Inl e \<Rightarrow> None
                | Inr t' \<Rightarrow> subscriptRec h dflt key t')))"

declare subscriptRec.simps [code]

definition subscript ::
  "('k \<Rightarrow> 64 word) \<Rightarrow> 'v \<Rightarrow> 'k \<Rightarrow> ('k, 'v) HashMap \<Rightarrow> error + ('v \<times> ('k, 'v) HashMap)" where
  "subscript h dflt key t =
     (case subscriptRec h dflt key t of None \<Rightarrow> Inl undefined_behaviour | Some r \<Rightarrow> Inr r)"

text \<open>\<^verbatim>\<open>clear\<close>: \<^verbatim>\<open>_table[i].clear()\<close> for every \<open>i\<close> from 0 below the capacity.\<close>

definition clear :: "('k, 'v) HashMap \<Rightarrow> error + ('k, 'v) HashMap" where
  "clear t =
     (if m_capacity t \<le> int (length (m_table t)) then
        Inr (t\<lparr>m_table := replicate (nat (m_capacity t)) [] @ drop (nat (m_capacity t)) (m_table t),
               m_size := 0\<rparr>)
      else Inl undefined_behaviour)"

section \<open>Equality of tables\<close>

text \<open>
  \<^verbatim>\<open>operator==\<close>: the four members are compared, then every pair \<open>p\<close> of \<open>other\<close> is looked
  up with \<^verbatim>\<open>at(p.first)\<close>; a different value or \<^verbatim>\<open>std::out_of_range\<close> returns false.
\<close>

fun allMatch :: "('k \<Rightarrow> 64 word) \<Rightarrow> ('k, 'v) HashMap \<Rightarrow> ('k \<times> 'v) list \<Rightarrow> error + bool" where
  "allMatch h t [] = Inr True"
| "allMatch h t (p # ps) =
     (case at_key h (fst p) t of
        Inl out_of_range \<Rightarrow> Inr False
      | Inl e \<Rightarrow> Inl e
      | Inr v \<Rightarrow> if v \<noteq> snd p then Inr False else allMatch h t ps)"

definition operator_eq ::
  "('k \<Rightarrow> 64 word) \<Rightarrow> ('k, 'v) HashMap \<Rightarrow> ('k, 'v) HashMap \<Rightarrow> error + bool" where
  "operator_eq h t other =
     (if m_size t = m_size other \<and> m_upperLoadFactor t = m_upperLoadFactor other
         \<and> m_lowerLoadFactor t = m_lowerLoadFactor other \<and> m_capacity t = m_capacity other
      then (case entries other of Inl e \<Rightarrow> Inl e | Inr ps \<Rightarrow> allMatch h t ps)
      else Inr False)"

section \<open>Sequences of operations\<close>

datatype ('k, 'v) operation = Insert 'k 'v | Erase 'k | Subscript 'k | Clear

fun apply_operation ::
  "('k \<Rightarrow> 64 word) \<Rightarrow> 'v \<Rightarrow> ('k, 'v) operation \<Rightarrow> ('k, 'v) HashMap \<Rightarrow> error + ('k, 'v) HashMap"
where
  "apply_operation h dflt (Insert k v) t =
     (case insert_key h k v t of Inl e \<Rightarrow> Inl e | Inr r \<Rightarrow> Inr (snd r))"
| "apply_operation h dflt (Erase k) t =
     (case erase h k t of Inl e \<Rightarrow> Inl e | Inr r \<Rightarrow> Inr (snd r))"
| "apply_operation h dflt (Subscript k) t =
     (case subscript h dflt k t of Inl e \<Rightarrow> Inl e | Inr r \<Rightarrow> Inr (snd r))"
| "apply_operation h dflt Clear t = clear t"

fun run ::
  "('k \<Rightarrow> 64 word) \<Rightarrow> 'v \<Rightarrow> ('k, 'v) operation list \<Rightarrow> ('k, 'v) HashMap \<Rightarrow> error + ('k, 'v) HashMap"
where
  "run h dflt [] t = Inr t"
| "run h dflt (x # xs) t =
     (case apply_operation h dflt x t of Inl e \<Rightarrow> Inl e | Inr t' \<Rightarrow> run h dflt xs t')"

section \<open>Well-formed tables\<close>

text \<open>
  What every table built by the constructors and changed by the operations satisfies.
  \<open>shape\<close> is what the traversal needs: the array has as many buckets as the capacity
  says, and at least one. \<open>placed\<close> says that every pair lies in the bucket its key hashes
  to. \<open>wellFormed\<close> adds that the capacity is a power of two in the range of \<^verbatim>\<open>long\<close>, that
  \<^verbatim>\<open>_size\<close> counts the pairs and that no key occurs twice. \<open>lookup\<close> is the finite map a
  table stands for.
\<close>

definition shape :: "('k, 'v) HashMap \<Rightarrow> bool" where
  "shape t = (1 \<le> m_capacity t \<and> int (length (m_table t)) = m_capacity t)"

definition placed :: "('k \<Rightarrow> 64 word) \<Rightarrow> int \<Rightarrow> ('k, 'v) bucket list \<Rightarrow> bool" where
  "placed h c tbl = (\<forall>i < length tbl. \<forall>p \<in> set (tbl ! i). getIndex h (fst p) c = int i)"

definition wellFormed :: "('k \<Rightarrow> 64 word) \<Rightarrow> ('k, 'v) HashMap \<Rightarrow> bool" where
  "wellFormed h t =
     ((\<exists>m \<le> 62. m_capacity t = 2 ^ m)
      \<and> int (length (m_table t)) = m_capacity t
      \<and> m_size t = int (length (concat (m_table t)))
      \<and> distinct (map fst (concat (m_table t)))
      \<and> placed h (m_capacity t) (m_table t))"

definition lookup :: "('k, 'v) HashMap \<Rightarrow> 'k \<Rightarrow> 'v option" where
  "lookup t = map_of (concat (m_table t))"

subsection \<open>The tables between the steps of an operation\<close>

text \<open>
  \<open>pushed h k v t\<close> is the table \<^verbatim>\<open>insert\<close> and \<^verbatim>\<open>operator[]\<close> hand to
  \<^verbatim>\<open>_keepUpperLoadFactor\<close>: the pair appended to the bucket of its key, the size
  incremented. \<open>removed h k t\<close> is the table \<^verbatim>\<open>erase\<close> hands to \<^verbatim>\<open>_keepLowerLoadFactor\<close>:
  the first pair with the key erased from the key's bucket, the size decremented.
  \<open>assigned h k v t\<close> is the table after the overwriting branch of the bulk-load loop.
  \<open>default_table\<close> is what \<^verbatim>\<open>HashMap()\<close> builds.
\<close>

definition pushed :: "('k \<Rightarrow> 64 word) \<Rightarrow> 'k \<Rightarrow> 'v \<Rightarrow> ('k, 'v) HashMap \<Rightarrow> ('k, 'v) HashMap" where
  "pushed h k v t =
     t\<lparr>m_table := (m_table t)[nat (getIndex h k (m_capacity t)) :=
                      m_table t ! nat (getIndex h k (m_capacity t)) @ [(k, v)]],
       m_size := m_size t + 1\<rparr>"

fun bucketRemove :: "'k \<Rightarrow> ('k, 'v) bucket \<Rightarrow> ('k, 'v) bucket" where
  "bucketRemove key [] = []"
| "bucketRemove key (p # ps) = (if fst p = key then ps else p # bucketRemove key ps)"

definition removed :: "('k \<Rightarrow> 64 word) \<Rightarrow> 'k \<Rightarrow> ('k, 'v) HashMap \<Rightarrow> ('k, 'v) HashMap" where
  "removed h k t =
     t\<lparr>m_table := (m_table t)[nat (getIndex h k (m_capacity t)) :=
                      bucketRemove k (m_table t ! nat (getIndex h k (m_capacity t)))],
       m_size := m_size t - 1\<rparr>"

definition assigned :: "('k \<Rightarrow> 64 word) \<Rightarrow> 'k \<Rightarrow> 'v \<Rightarrow> ('k, 'v) HashMap \<Rightarrow> ('k, 'v) HashMap" where
  "assigned h k v t =
     t\<lparr>m_table := (m_table t)[nat (getIndex h k (m_capacity t)) :=
                      bucketAssign k v (m_table t ! nat (getIndex h k (m_capacity t)))]\<rparr>"

definition default_table :: "('k, 'v) HashMap" where
  "default_table =
     \<lparr>m_capacity = 16, m_size = 0, m_upperLoadFactor = 3 / 4, m_lowerLoadFactor = 1 / 4,
      m_table = replicate 16 []\<rparr>"

subsection \<open>Example tables\<close>

text \<open>
  Concrete inputs for the examples: keys are naturals hashed by the identity (what
  \<^verbatim>\<open>std::hash\<close> of libstdc++ does on the integer types), values are integers. The tables
  with the default bounds 0.25 and 0.75: empty, after \<open>insert(1, 10)\<close>, after the further
  \<open>insert(17, 20)\<close> (same bucket as 1) in either order, after \<open>insert(2, 30)\<close> on top, and
  the empty table of 8 buckets that erasing 1 from the second leaves. The tables with the
  bounds 1/32 and 1/16: empty, after \<open>insert(1, 10)\<close>, and after \<open>insert(2, 20)\<close>, which
  doubles the capacity. The empty table with the bounds 0 and \<open>2^-70\<close>, an upper bound that
  no capacity in the range of \<^verbatim>\<open>long\<close> respects once a pair is stored. The table of 32
  buckets that the bulk-load constructor builds from the keys 0 to 12, each with itself as
  value.
\<close>

definition hash_id :: "nat \<Rightarrow> 64 word" where
  "hash_id k = word_of_nat k"

definition example_empty :: "(nat, int) HashMap" where
  "example_empty =
     \<lparr>m_capacity = 16, m_size = 0, m_upperLoadFactor = 3 / 4, m_lowerLoadFactor = 1 / 4,
      m_table = replicate 16 []\<rparr>"

definition example_one :: "(nat, int) HashMap" where
  "example_one =
     \<lparr>m_capacity = 16, m_size = 1, m_upperLoadFactor = 3 / 4, m_lowerLoadFactor = 1 / 4,
      m_table = (replicate 16 [])[1 := [(1, 10)]]\<rparr>"

definition example_two_a :: "(nat, int) HashMap" where
  "example_two_a = example_empty\<lparr>m_size := 2,
     m_table := (replicate 16 [])[1 := [(1, 10), (17, 20)]]\<rparr>"

definition example_two_b :: "(nat, int) HashMap" where
  "example_two_b = example_empty\<lparr>m_size := 2,
     m_table := (replicate 16 [])[1 := [(17, 20), (1, 10)]]\<rparr>"

definition example_three :: "(nat, int) HashMap" where
  "example_three =
     \<lparr>m_capacity = 16, m_size = 3, m_upperLoadFactor = 3 / 4, m_lowerLoadFactor = 1 / 4,
      m_table = (replicate 16 [])[1 := [(1, 10), (17, 20)], 2 := [(2, 30)]]\<rparr>"

definition example_halved :: "(nat, int) HashMap" where
  "example_halved =
     \<lparr>m_capacity = 8, m_size = 0, m_upperLoadFactor = 3 / 4, m_lowerLoadFactor = 1 / 4,
      m_table = replicate 8 []\<rparr>"

definition example_narrow :: "(nat, int) HashMap" where
  "example_narrow =
     \<lparr>m_capacity = 16, m_size = 0, m_upperLoadFactor = 1 / 16, m_lowerLoadFactor = 1 / 32,
      m_table = replicate 16 []\<rparr>"

definition example_narrow_one :: "(nat, int) HashMap" where
  "example_narrow_one =
     \<lparr>m_capacity = 16, m_size = 1, m_upperLoadFactor = 1 / 16, m_lowerLoadFactor = 1 / 32,
      m_table = (replicate 16 [])[1 := [(1, 10)]]\<rparr>"

definition example_narrow_two :: "(nat, int) HashMap" where
  "example_narrow_two =
     \<lparr>m_capacity = 32, m_size = 2, m_upperLoadFactor = 1 / 16, m_lowerLoadFactor = 1 / 32,
      m_table = (replicate 32 [])[1 := [(1, 10)], 2 := [(2, 20)]]\<rparr>"


definition example_thirteen :: "(nat, int) HashMap" where
  "example_thirteen =
     \<lparr>m_capacity = 32, m_size = 13, m_upperLoadFactor = 3 / 4, m_lowerLoadFactor = 1 / 4,
      m_table = map (\<lambda>i. [(i, int i)]) [0..<13] @ replicate 19 []\<rparr>"

section \<open>Lemmas on indices and buckets\<close>

lemma getIndex_range:
  assumes "1 \<le> c" "c \<le> LONG_MAX"
  shows "0 \<le> getIndex h k c \<and> getIndex h k c < c"
proof -
  define m :: "64 word" where "m = word_of_int (c - 1)"
  define w where "w = h k AND m"
  have um: "uint m = c - 1"
    unfolding m_def uint_word_of_int using assms by (simp add: LONG_MAX_def)
  have "w \<le> m" unfolding w_def by (rule word_and_le1)
  then have le: "uint w \<le> c - 1"
    using um by (simp add: word_le_def)
  have lt: "uint w < 2 ^ 63"
    using le assms by (simp add: LONG_MAX_def)
  have "(- (2 ^ 63) :: int) \<le> 0" by simp
  also have "0 \<le> uint w" by simp
  finally have ge: "- (2 ^ 63) \<le> uint w" .
  have "sint w = signed_take_bit 63 (uint w)"
    by (simp add: sint_uint)
  also have "\<dots> = uint w"
    using ge lt by (rule signed_take_bit_int_eq_self)
  finally have "sint w = uint w" .
  then show ?thesis using le uint_ge_0 [of w] unfolding getIndex_def w_def m_def by simp
qed

lemma bucketContains_iff: "bucketContains key b \<longleftrightarrow> key \<in> fst ` set b"
  by (induction b) auto

lemma bucketFind_map_of: "bucketFind key b = map_of b key"
  by (induction b) auto

lemma bucketErase_None: "bucketErase key b = None \<longleftrightarrow> key \<notin> fst ` set b"
  by (induction b) (auto split: option.splits)

lemma bucketErase_Some:
  "bucketErase key b = Some b' \<Longrightarrow>
     \<exists>v. map_of b key = Some v \<and> mset b = add_mset (key, v) (mset b')"
  by (induction b arbitrary: b') (auto split: if_splits option.splits)

section \<open>The traversal visits the buckets in order\<close>

lemma shape_length: "shape t \<Longrightarrow> length (m_table t) = nat (m_capacity t)"
  unfolding shape_def by linarith

lemma bucketAt_in_range:
  "0 \<le> i \<Longrightarrow> i < int (length tbl) \<Longrightarrow> bucketAt tbl i = Inr (tbl ! nat i)"
  by (simp add: bucketAt_def)

lemma concat_drop_step:
  "n < length xss \<Longrightarrow> concat (drop n xss) = xss ! n @ concat (drop (Suc n) xss)"
  by (simp flip: Cons_nth_drop_Suc)

lemma skipEmpty_shape:
  "shape t \<Longrightarrow> 0 \<le> bi \<Longrightarrow> bi \<le> m_capacity t \<Longrightarrow>
   \<exists>j. skipEmpty t bi = Inr j \<and> bi \<le> j \<and> j \<le> m_capacity t
     \<and> concat (drop (nat bi) (m_table t)) = concat (drop (nat j) (m_table t))
     \<and> (j < m_capacity t \<longrightarrow> m_table t ! nat j \<noteq> [])"
proof (induction t bi rule: skipEmpty.induct)
  case (1 t bi)
  show ?case
  proof (cases "bi < m_capacity t")
    case False
    with "1.prems" show ?thesis by (subst skipEmpty.simps) simp
  next
    case True
    then have at: "bucketAt (m_table t) bi = Inr (m_table t ! nat bi)"
      using "1.prems" by (simp add: bucketAt_in_range shape_def)
    show ?thesis
    proof (cases "m_table t ! nat bi = []")
      case False
      with True at "1.prems" show ?thesis by (subst skipEmpty.simps) simp
    next
      case e: True
      have "\<exists>j. skipEmpty t (bi + 1) = Inr j \<and> bi + 1 \<le> j \<and> j \<le> m_capacity t
              \<and> concat (drop (nat (bi + 1)) (m_table t)) = concat (drop (nat j) (m_table t))
              \<and> (j < m_capacity t \<longrightarrow> m_table t ! nat j \<noteq> [])"
        using "1.IH" [OF True at e] "1.prems" True by simp
      then obtain j where j: "skipEmpty t (bi + 1) = Inr j" "bi + 1 \<le> j" "j \<le> m_capacity t"
        "concat (drop (nat (bi + 1)) (m_table t)) = concat (drop (nat j) (m_table t))"
        "j < m_capacity t \<longrightarrow> m_table t ! nat j \<noteq> []" by blast
      have "nat bi < length (m_table t)" using True "1.prems" by (simp add: shape_def)
      then have "concat (drop (nat bi) (m_table t)) = concat (drop (Suc (nat bi)) (m_table t))"
        using e by (simp add: concat_drop_step)
      moreover have "Suc (nat bi) = nat (bi + 1)" using "1.prems" by simp
      ultimately have c: "concat (drop (nat bi) (m_table t)) = concat (drop (nat j) (m_table t))"
        using j(4) by simp
      have "skipEmpty t bi = Inr j"
        using True at e j(1) by (subst skipEmpty.simps) simp
      with j c show ?thesis by auto
    qed
  qed
qed

lemma bucketEnd_last:
  "shape t \<Longrightarrow> bucketEnd t (m_capacity t - 1) =
     Inr (m_capacity t - 1, length (m_table t ! nat (m_capacity t - 1)))"
  by (simp add: bucketEnd_def bucketAt_def shape_def)

lemma getNext_shape:
  assumes "shape t" "0 \<le> it_bucketIndex it" "it_bucketIndex it \<le> m_capacity t"
  shows "\<exists>j. skipEmpty t (it_bucketIndex it) = Inr j \<and> it_bucketIndex it \<le> j \<and> j \<le> m_capacity t
     \<and> concat (drop (nat (it_bucketIndex it)) (m_table t)) = concat (drop (nat j) (m_table t))
     \<and> (j < m_capacity t \<longrightarrow> m_table t ! nat j \<noteq> [])
     \<and> getNextBucketAndIterator t it =
         Inr (if j \<noteq> m_capacity t then it\<lparr>it_bucketIndex := j, it_vectorIterator := (j, 0)\<rparr>
              else it\<lparr>it_bucketIndex := j,
                      it_vectorIterator :=
                        (m_capacity t - 1, length (m_table t ! nat (m_capacity t - 1))),
                      it_end := True\<rparr>)"
proof -
  obtain j where j: "skipEmpty t (it_bucketIndex it) = Inr j" "it_bucketIndex it \<le> j"
    "j \<le> m_capacity t"
    "concat (drop (nat (it_bucketIndex it)) (m_table t)) = concat (drop (nat j) (m_table t))"
    "j < m_capacity t \<longrightarrow> m_table t ! nat j \<noteq> []"
    using skipEmpty_shape [OF assms] by blast
  have "j \<noteq> m_capacity t \<Longrightarrow> bucketAt (m_table t) j = Inr (m_table t ! nat j)"
    using j assms by (simp add: bucketAt_def shape_def)
  then have "getNextBucketAndIterator t it =
         Inr (if j \<noteq> m_capacity t then it\<lparr>it_bucketIndex := j, it_vectorIterator := (j, 0)\<rparr>
              else it\<lparr>it_bucketIndex := j,
                      it_vectorIterator :=
                        (m_capacity t - 1, length (m_table t ! nat (m_capacity t - 1))),
                      it_end := True\<rparr>)"
    using j(1) bucketEnd_last [OF assms(1)] by (simp add: getNextBucketAndIterator_def)
  with j show ?thesis by blast
qed

lemma end_it_shape:
  assumes "shape t"
  shows "\<exists>e. end_it t = Inr e \<and> it_end e
           \<and> it_vectorIterator e = (m_capacity t - 1, length (m_table t ! nat (m_capacity t - 1)))"
proof -
  let ?i0 = "\<lparr>it_end = True, it_bucketIndex = 0, it_vectorIterator = (0, 0)\<rparr>"
  have "0 \<le> it_bucketIndex ?i0" "it_bucketIndex ?i0 \<le> m_capacity t"
    using assms by (simp_all add: shape_def)
  from getNext_shape [OF assms this]
  obtain i where "getNextBucketAndIterator t ?i0 = Inr i" "it_end i" by auto
  then show ?thesis
    using bucketEnd_last [OF assms] by (simp add: end_it_def PointerToPair_new_def)
qed

lemma visitFrom_at_end:
  assumes "shape t" "it_end i"
  shows "visitFrom t i acc = Some acc"
proof -
  obtain e where "end_it t = Inr e" "it_end e" using end_it_shape [OF assms(1)] by blast
  then show ?thesis using assms(2) by (subst visitFrom.simps) (simp add: it_equal_def)
qed

lemma visitFrom_valid:
  assumes "shape t"
  shows "0 \<le> b \<Longrightarrow> b < m_capacity t \<Longrightarrow> off < length (m_table t ! nat b) \<Longrightarrow>
     \<not> it_end i \<Longrightarrow> it_bucketIndex i = b \<Longrightarrow> it_vectorIterator i = (b, off) \<Longrightarrow>
     visitFrom t i acc =
       Some (acc @ drop off (m_table t ! nat b) @ concat (drop (Suc (nat b)) (m_table t)))"
proof (induction "length (drop off (m_table t ! nat b) @ concat (drop (Suc (nat b)) (m_table t)))"
         arbitrary: b off i acc rule: less_induct)
  case less
  let ?tbl = "m_table t"
  let ?bk = "?tbl ! nat b"
  let ?rest = "concat (drop (Suc (nat b)) ?tbl)"
  obtain e where e: "end_it t = Inr e" "it_end e"
    "it_vectorIterator e = (m_capacity t - 1, length (?tbl ! nat (m_capacity t - 1)))"
    using end_it_shape [OF assms] by blast
  have ne: "\<not> it_equal i e"
    using less.prems e by (auto simp: it_equal_def)
  have inr: "bucketAt ?tbl b = Inr ?bk"
    using less.prems assms by (simp add: bucketAt_def shape_def)
  have d: "deref t i = Inr (?bk ! off)"
    using less.prems inr by (simp add: deref_def)
  have be: "bucketEnd t b = Inr (b, length ?bk)"
    using inr by (simp add: bucketEnd_def)
  have split: "drop off ?bk = ?bk ! off # drop (Suc off) ?bk"
    using less.prems by (simp add: Cons_nth_drop_Suc)
  show ?case
  proof (cases "Suc off = length ?bk")
    case False
    let ?i1 = "i\<lparr>it_vectorIterator := (b, Suc off)\<rparr>"
    have inc: "increment t i = Inr ?i1"
      using d be less.prems False by (simp add: increment_def Let_def)
    have lt: "Suc off < length ?bk" using False less.prems by simp
    have "visitFrom t ?i1 (acc @ [?bk ! off]) =
            Some ((acc @ [?bk ! off]) @ drop (Suc off) ?bk @ ?rest)"
      by (rule less.hyps) (use less.prems lt split in simp_all)
    then show ?thesis
      using e(1) ne d inc split by (subst visitFrom.simps) simp
  next
    case True
    let ?i1 = "i\<lparr>it_vectorIterator := (b, Suc off), it_bucketIndex := b + 1\<rparr>"
    have b1: "0 \<le> it_bucketIndex ?i1" "it_bucketIndex ?i1 \<le> m_capacity t"
      using less.prems by simp_all
    from getNext_shape [OF assms b1]
    obtain j where j: "b + 1 \<le> j" "j \<le> m_capacity t"
      "concat (drop (nat (b + 1)) ?tbl) = concat (drop (nat j) ?tbl)"
      "j < m_capacity t \<longrightarrow> ?tbl ! nat j \<noteq> []"
      "getNextBucketAndIterator t ?i1 =
         Inr (if j \<noteq> m_capacity t then ?i1\<lparr>it_bucketIndex := j, it_vectorIterator := (j, 0)\<rparr>
              else ?i1\<lparr>it_bucketIndex := j,
                      it_vectorIterator :=
                        (m_capacity t - 1, length (?tbl ! nat (m_capacity t - 1))),
                      it_end := True\<rparr>)"
      by auto
    have sb: "Suc (nat b) = nat (b + 1)" using less.prems by simp
    have rest: "?rest = concat (drop (nat j) ?tbl)" using j(3) sb by simp
    have dl: "drop off ?bk = [?bk ! off]" using split True by simp
    show ?thesis
    proof (cases "j = m_capacity t")
      case jc: True
      let ?i2 = "?i1\<lparr>it_bucketIndex := j,
                      it_vectorIterator :=
                        (m_capacity t - 1, length (?tbl ! nat (m_capacity t - 1))),
                      it_end := True\<rparr>"
      have inc: "increment t i = Inr ?i2"
        using d be less.prems True j(5) jc by (simp add: increment_def Let_def)
      have "?rest = []" using rest jc shape_length [OF assms] by simp
      moreover have "visitFrom t ?i2 (acc @ [?bk ! off]) = Some (acc @ [?bk ! off])"
        by (rule visitFrom_at_end [OF assms]) simp
      ultimately show ?thesis
        using e(1) ne d inc dl by (subst visitFrom.simps) simp
    next
      case jc: False
      let ?i2 = "?i1\<lparr>it_bucketIndex := j, it_vectorIterator := (j, 0)\<rparr>"
      have inc: "increment t i = Inr ?i2"
        using d be less.prems True j(5) jc by (simp add: increment_def Let_def)
      have jlt: "j < m_capacity t" "0 \<le> j" using jc j less.prems by simp_all
      then have jn: "nat j < length ?tbl" using assms by (simp add: shape_def)
      have r2: "?rest = ?tbl ! nat j @ concat (drop (Suc (nat j)) ?tbl)"
        using rest jn by (simp add: concat_drop_step)
      have nonempty: "0 < length (?tbl ! nat j)" using j(4) jlt by simp
      have "visitFrom t ?i2 (acc @ [?bk ! off]) =
              Some ((acc @ [?bk ! off]) @ drop 0 (?tbl ! nat j) @ concat (drop (Suc (nat j)) ?tbl))"
        by (rule less.hyps) (use less.prems jlt nonempty dl r2 in simp_all)
      then show ?thesis
        using e(1) ne d inc dl r2 by (subst visitFrom.simps) simp
    qed
  qed
qed

lemma entries_shape:
  assumes "shape t"
  shows "entries t = Inr (concat (m_table t))"
proof -
  let ?i0 = "\<lparr>it_end = False, it_bucketIndex = 0, it_vectorIterator = (0, 0)\<rparr>"
  have b0: "0 \<le> it_bucketIndex ?i0" "it_bucketIndex ?i0 \<le> m_capacity t"
    using assms by (simp_all add: shape_def)
  from getNext_shape [OF assms b0]
  obtain j where j: "0 \<le> j" "j \<le> m_capacity t"
      "concat (m_table t) = concat (drop (nat j) (m_table t))"
      "j < m_capacity t \<longrightarrow> m_table t ! nat j \<noteq> []"
      "getNextBucketAndIterator t ?i0 =
         Inr (if j \<noteq> m_capacity t then ?i0\<lparr>it_bucketIndex := j, it_vectorIterator := (j, 0)\<rparr>
              else ?i0\<lparr>it_bucketIndex := j,
                      it_vectorIterator :=
                        (m_capacity t - 1, length (m_table t ! nat (m_capacity t - 1))),
                      it_end := True\<rparr>)"
    by auto
  show ?thesis
  proof (cases "j = m_capacity t")
    case True
    let ?i2 = "?i0\<lparr>it_bucketIndex := j,
                      it_vectorIterator :=
                        (m_capacity t - 1, length (m_table t ! nat (m_capacity t - 1))),
                      it_end := True\<rparr>"
    have bg: "begin_it t = Inr ?i2"
      using j(5) True bucketEnd_last [OF assms] by (simp add: begin_it_def PointerToPair_new_def)
    have "visitFrom t ?i2 [] = Some []" by (rule visitFrom_at_end [OF assms]) simp
    moreover have "concat (m_table t) = []" using j(3) True shape_length [OF assms] by simp
    ultimately show ?thesis using bg by (simp add: entries_def)
  next
    case False
    let ?i2 = "?i0\<lparr>it_bucketIndex := j, it_vectorIterator := (j, 0)\<rparr>"
    have bg: "begin_it t = Inr ?i2"
      using j(5) False by (simp add: begin_it_def PointerToPair_new_def)
    have jlt: "j < m_capacity t" using False j by simp
    then have jn: "nat j < length (m_table t)" using assms j(1) by (simp add: shape_def)
    have "visitFrom t ?i2 [] =
            Some ([] @ drop 0 (m_table t ! nat j) @ concat (drop (Suc (nat j)) (m_table t)))"
      by (rule visitFrom_valid [OF assms]) (use j jlt in simp_all)
    moreover have "concat (m_table t) = m_table t ! nat j @ concat (drop (Suc (nat j)) (m_table t))"
      using j(3) jn by (simp add: concat_drop_step)
    ultimately show ?thesis using bg by (simp add: entries_def)
  qed
qed

section \<open>Rehashing\<close>

lemma concat_update:
  assumes "i < length xss"
  shows "concat (xss[i := ys]) = concat (take i xss) @ ys @ concat (drop (Suc i) xss)"
    and "concat xss = concat (take i xss) @ xss ! i @ concat (drop (Suc i) xss)"
proof -
  show "concat (xss[i := ys]) = concat (take i xss) @ ys @ concat (drop (Suc i) xss)"
    using assms by (simp add: upd_conv_take_nth_drop)
  have "concat xss = concat (take i xss @ xss ! i # drop (Suc i) xss)"
    using assms by (simp add: id_take_nth_drop [symmetric])
  then show "concat xss = concat (take i xss) @ xss ! i @ concat (drop (Suc i) xss)"
    by simp
qed

lemma mset_concat_append:
  assumes "i < length xss"
  shows "mset (concat (xss[i := xss ! i @ [p]])) = add_mset p (mset (concat xss))"
proof -
  have "mset (concat xss) = mset (concat (take i xss)) + mset (xss ! i) + mset (concat (drop (Suc i) xss))"
    using concat_update(2) [OF assms] by (metis mset_append append_assoc)
  then show ?thesis
    by (simp add: concat_update(1) [OF assms])
qed

lemma mset_concat_erase:
  assumes "i < length xss" "mset (xss ! i) = add_mset p (mset b')"
  shows "mset (concat xss) = add_mset p (mset (concat (xss[i := b'])))"
proof -
  have "mset (concat xss) = mset (concat (take i xss)) + mset (xss ! i) + mset (concat (drop (Suc i) xss))"
    using concat_update(2) [OF assms(1)] by (metis mset_append append_assoc)
  then show ?thesis
    using assms(2) by (simp add: concat_update(1) [OF assms(1)])
qed

lemma placed_append:
  assumes "placed h c tbl" "getIndex h k c = int i"
  shows "placed h c (tbl[i := tbl ! i @ [(k, v)]])"
  unfolding placed_def
proof (intro allI impI ballI)
  fix j p
  assume j: "j < length (tbl[i := tbl ! i @ [(k, v)]])"
    and p: "p \<in> set (tbl[i := tbl ! i @ [(k, v)]] ! j)"
  show "getIndex h (fst p) c = int j"
  proof (cases "j = i")
    case True
    with j p have "p \<in> set (tbl ! i) \<or> p = (k, v)" by auto
    with assms True j show ?thesis unfolding placed_def by auto
  next
    case False
    with j p assms(1) show ?thesis unfolding placed_def by simp
  qed
qed

lemma placed_subset:
  assumes "placed h c tbl" "set b' \<subseteq> set (tbl ! i)"
  shows "placed h c (tbl[i := b'])"
  unfolding placed_def
proof (intro allI impI ballI)
  fix j p
  assume j: "j < length (tbl[i := b'])" and p: "p \<in> set (tbl[i := b'] ! j)"
  show "getIndex h (fst p) c = int j"
  proof (cases "j = i")
    case True
    with j p assms(2) have "p \<in> set (tbl ! i)" by auto
    with assms(1) True j show ?thesis unfolding placed_def by auto
  next
    case False
    with j p assms(1) show ?thesis unfolding placed_def by simp
  qed
qed

lemma addToTable_in_range:
  assumes "1 \<le> c" "c \<le> LONG_MAX" "int (length tbl) = c"
  shows "addToTable h k v tbl c =
           Inr (tbl[nat (getIndex h k c) := tbl ! nat (getIndex h k c) @ [(k, v)]])"
  using getIndex_range [OF assms(1,2), of h k] assms(3)
  by (simp add: addToTable_def bucketAt_def)

lemma addAll_invariant:
  assumes "1 \<le> c" "c \<le> LONG_MAX"
  shows "int (length tbl) = c \<Longrightarrow> placed h c tbl \<Longrightarrow>
     \<exists>tbl'. addAll h ps tbl c = Inr tbl' \<and> length tbl' = length tbl \<and> placed h c tbl'
       \<and> mset (concat tbl') = mset (concat tbl) + mset ps"
proof (induction ps arbitrary: tbl)
  case Nil
  then show ?case by simp
next
  case (Cons p ps)
  let ?i = "nat (getIndex h (fst p) c)"
  let ?tbl1 = "tbl[?i := tbl ! ?i @ [(fst p, snd p)]]"
  have r: "0 \<le> getIndex h (fst p) c" "getIndex h (fst p) c < c"
    using getIndex_range [OF assms, of h "fst p"] by simp_all
  then have il: "?i < length tbl" using Cons.prems(1) by linarith
  have a: "addToTable h (fst p) (snd p) tbl c = Inr ?tbl1"
    by (rule addToTable_in_range [OF assms Cons.prems(1)])
  have p1: "placed h c ?tbl1"
    by (rule placed_append [OF Cons.prems(2)]) (use r in simp)
  have "int (length ?tbl1) = c" using Cons.prems(1) by simp
  from Cons.IH [OF this p1]
  obtain tbl' where t: "addAll h ps ?tbl1 c = Inr tbl'" "length tbl' = length ?tbl1"
    "placed h c tbl'" "mset (concat tbl') = mset (concat ?tbl1) + mset ps" by blast
  have "mset (concat ?tbl1) = add_mset p (mset (concat tbl))"
    using mset_concat_append [OF il, of p] by simp
  with t a show ?case by simp
qed

section \<open>Lookups in well-formed tables\<close>

lemma wellFormed_capacity:
  assumes "wellFormed h t"
  shows "1 \<le> m_capacity t" "m_capacity t \<le> LONG_MAX" "m_capacity t \<le> 2 ^ 62"
proof -
  obtain m where m: "m \<le> 62" "m_capacity t = 2 ^ m"
    using assms unfolding wellFormed_def by blast
  have "(2::int) ^ m \<le> 2 ^ 62" using m(1) by (rule power_increasing) simp
  then show "m_capacity t \<le> 2 ^ 62" using m(2) by simp
  then show "m_capacity t \<le> LONG_MAX" by (simp add: LONG_MAX_def)
  show "1 \<le> m_capacity t" using m(2) by simp
qed

lemma wellFormed_shape: "wellFormed h t \<Longrightarrow> shape t"
  using wellFormed_capacity(1) [of h t] by (simp add: shape_def wellFormed_def)

lemma wellFormed_index:
  assumes "wellFormed h t"
  shows "0 \<le> getIndex h k (m_capacity t)" "getIndex h k (m_capacity t) < m_capacity t"
    "nat (getIndex h k (m_capacity t)) < length (m_table t)"
    "bucketAt (m_table t) (getIndex h k (m_capacity t)) =
       Inr (m_table t ! nat (getIndex h k (m_capacity t)))"
proof -
  have r: "0 \<le> getIndex h k (m_capacity t) \<and> getIndex h k (m_capacity t) < m_capacity t"
    by (rule getIndex_range [OF wellFormed_capacity(1,2) [OF assms]])
  then show "0 \<le> getIndex h k (m_capacity t)" "getIndex h k (m_capacity t) < m_capacity t"
    by simp_all
  have l: "int (length (m_table t)) = m_capacity t" using assms by (simp add: wellFormed_def)
  with r show "nat (getIndex h k (m_capacity t)) < length (m_table t)" by linarith
  show "bucketAt (m_table t) (getIndex h k (m_capacity t)) =
       Inr (m_table t ! nat (getIndex h k (m_capacity t)))"
    using r l by (simp add: bucketAt_def)
qed

text \<open>In a well-formed table the bucket of a key holds what the table maps the key to.\<close>

lemma placed_lookup:
  assumes "placed h c tbl" "distinct (map fst (concat tbl))"
    and "0 \<le> getIndex h k c" "nat (getIndex h k c) < length tbl"
  shows "map_of (tbl ! nat (getIndex h k c)) k = map_of (concat tbl) k"
proof -
  let ?i = "nat (getIndex h k c)"
  have sub: "set (tbl ! ?i) \<subseteq> set (concat tbl)"
    using nth_mem [OF assms(4)] by auto
  have db: "distinct (map fst (tbl ! ?i))"
  proof -
    have "concat tbl = concat (take ?i tbl) @ tbl ! ?i @ concat (drop (Suc ?i) tbl)"
      using concat_update(2) [OF assms(4)] .
    then have "distinct (map fst (concat (take ?i tbl) @ tbl ! ?i @ concat (drop (Suc ?i) tbl)))"
      using assms(2) by simp
    then show ?thesis by simp
  qed
  have "(k, v) \<in> set (tbl ! ?i) \<longleftrightarrow> (k, v) \<in> set (concat tbl)" for v
  proof
    assume "(k, v) \<in> set (tbl ! ?i)" with sub show "(k, v) \<in> set (concat tbl)" by blast
  next
    assume "(k, v) \<in> set (concat tbl)"
    then obtain b where b: "b \<in> set tbl" "(k, v) \<in> set b" by auto
    then obtain j where j: "j < length tbl" "(k, v) \<in> set (tbl ! j)"
      by (metis in_set_conv_nth)
    have "\<forall>p \<in> set (tbl ! j). getIndex h (fst p) c = int j"
      using assms(1) j(1) unfolding placed_def by blast
    then have "getIndex h (fst (k, v)) c = int j" using j(2) by blast
    then have "getIndex h k c = int j" by simp
    then have "j = ?i" by simp
    with j show "(k, v) \<in> set (tbl ! ?i)" by simp
  qed
  then have eq: "map_of (tbl ! ?i) k = Some v \<longleftrightarrow> map_of (concat tbl) k = Some v" for v
    using db assms(2) by (simp add: map_of_eq_Some_iff)
  show ?thesis
  proof (cases "map_of (tbl ! ?i) k")
    case None
    show ?thesis
    proof (cases "map_of (concat tbl) k")
      case n: None
      with None show ?thesis by simp
    next
      case (Some a)
      with eq [of a] None show ?thesis by simp
    qed
  next
    case (Some v)
    then show ?thesis using eq [of v] by simp
  qed
qed

lemma wellFormed_bucket_lookup:
  assumes "wellFormed h t"
  shows "map_of (m_table t ! nat (getIndex h k (m_capacity t))) k = lookup t k"
proof -
  have "placed h (m_capacity t) (m_table t)" "distinct (map fst (concat (m_table t)))"
    using assms by (simp_all add: wellFormed_def)
  then show ?thesis
    unfolding lookup_def using wellFormed_index(1,3) [OF assms, of k] by (rule placed_lookup)
qed

lemma at_key_wellFormed:
  assumes "wellFormed h t"
  shows "at_key h k t = (case lookup t k of None \<Rightarrow> Inl out_of_range | Some v \<Rightarrow> Inr v)"
  by (simp add: at_key_def wellFormed_index(4) [OF assms] bucketFind_map_of
      wellFormed_bucket_lookup [OF assms])

lemma bucketContains_map_of: "bucketContains k b \<longleftrightarrow> map_of b k \<noteq> None"
  by (induction b) auto

lemma containsKey_wellFormed:
  assumes "wellFormed h t"
  shows "containsKey h k t = Inr (lookup t k \<noteq> None)"
  by (simp add: containsKey_def wellFormed_index(4) [OF assms] bucketContains_map_of
      wellFormed_bucket_lookup [OF assms])

section \<open>Growing, shrinking and rehashing well-formed tables\<close>

lemma growCapacity_Inr:
  "growCapacity sz u c = Inr nc \<Longrightarrow> 0 < c \<Longrightarrow> c \<le> LONG_MAX \<Longrightarrow>
     \<exists>n. nc = c * 2 ^ n \<and> nc \<le> LONG_MAX \<and> \<not> loadAbove sz nc u
       \<and> (\<forall>j<n. loadAbove sz (c * 2 ^ j) u)"
proof (induction sz u c rule: growCapacity.induct)
  case (1 sz u c)
  show ?case
  proof (cases "loadAbove sz c u")
    case False
    with "1.prems" have "nc = c" by (subst (asm) growCapacity.simps) simp
    with False "1.prems" show ?thesis by (intro exI [of _ 0]) simp
  next
    case True
    have ok: "\<not> (c = 0 \<or> c * TABLE_FACTOR > LONG_MAX \<or> c * TABLE_FACTOR < LONG_MIN)"
      using "1.prems"(1) True by (subst (asm) growCapacity.simps) (auto split: if_splits)
    have rec: "growCapacity sz u (c * TABLE_FACTOR) = Inr nc"
      using "1.prems"(1) True ok by (subst (asm) growCapacity.simps) (simp split: if_splits)
    have "0 < c * TABLE_FACTOR" "c * TABLE_FACTOR \<le> LONG_MAX"
      using "1.prems" ok by (simp_all add: TABLE_FACTOR_def)
    from "1.IH" [OF True ok rec this]
    obtain n where n: "nc = c * TABLE_FACTOR * 2 ^ n" "nc \<le> LONG_MAX" "\<not> loadAbove sz nc u"
      "\<forall>j<n. loadAbove sz (c * TABLE_FACTOR * 2 ^ j) u" by blast
    have "\<forall>j<Suc n. loadAbove sz (c * 2 ^ j) u"
    proof (intro allI impI)
      fix j assume j: "j < Suc n"
      show "loadAbove sz (c * 2 ^ j) u"
      proof (cases j)
        case 0 with True show ?thesis by simp
      next
        case (Suc j')
        with j n(4) have "loadAbove sz (c * TABLE_FACTOR * 2 ^ j') u" by simp
        then show ?thesis using Suc by (simp add: TABLE_FACTOR_def mult.assoc)
      qed
    qed
    moreover have "nc = c * 2 ^ Suc n" using n(1) by (simp add: TABLE_FACTOR_def mult.assoc)
    ultimately show ?thesis using n(2,3) by blast
  qed
qed

lemma growCapacity_returns:
  "m \<le> 62 \<Longrightarrow> of_int sz \<le> u * 2 ^ 62 \<Longrightarrow> \<exists>nc. growCapacity sz u (2 ^ m) = Inr nc"
proof (induction "62 - m" arbitrary: m)
  case 0
  then have m: "m = 62" by simp
  have "\<not> loadAbove sz (2 ^ 62) u"
    using "0.prems"(2) by (simp add: loadAbove_def field_simps)
  then show ?case unfolding m by (subst growCapacity.simps) simp
next
  case (Suc k)
  then have m: "m < 62" "k = 62 - Suc m" "Suc m \<le> 62" by simp_all
  show ?case
  proof (cases "loadAbove sz (2 ^ m) u")
    case False
    then show ?thesis by (subst growCapacity.simps) simp
  next
    case True
    have le: "(2::int) ^ Suc m \<le> 2 ^ 62" using m(3) by (rule power_increasing) simp
    have "LONG_MIN < 0" by (simp add: LONG_MIN_def)
    also have "(0::int) < 2 ^ m * TABLE_FACTOR" by (simp add: TABLE_FACTOR_def)
    finally have "\<not> 2 ^ m * TABLE_FACTOR < LONG_MIN" by simp
    moreover have "\<not> 2 ^ m * TABLE_FACTOR > LONG_MAX"
      using le by (simp add: TABLE_FACTOR_def LONG_MAX_def)
    ultimately have ok: "\<not> ((2::int) ^ m = 0 \<or> 2 ^ m * TABLE_FACTOR > LONG_MAX
                     \<or> 2 ^ m * TABLE_FACTOR < LONG_MIN)"
      by simp
    obtain nc where "growCapacity sz u (2 ^ Suc m) = Inr nc"
      using Suc.hyps(1) [OF m(2) m(3) Suc.prems(2)] by blast
    then have "growCapacity sz u (2 ^ m * TABLE_FACTOR) = Inr nc"
      by (simp add: TABLE_FACTOR_def mult.commute)
    then show ?thesis using True ok by (subst growCapacity.simps) simp
  qed
qed

lemma map_of_mset_cong:
  assumes "mset xs = mset ys" "distinct (map fst xs)"
  shows "distinct (map fst ys)" "map_of xs = map_of ys" "length xs = length ys"
proof -
  have "mset (map fst xs) = mset (map fst ys)" using assms(1) by (metis mset_map)
  then show d: "distinct (map fst ys)" using assms(2) by (metis mset_eq_imp_distinct_iff)
  have "set xs = set ys" using assms(1) by (rule mset_eq_setD)
  then show "map_of xs = map_of ys" using assms(2) d by (simp add: map_of_inject_set)
  show "length xs = length ys" using assms(1) by (rule mset_eq_length)
qed

lemma reHash_wellFormed:
  assumes "wellFormed h t" "m \<le> 62"
  shows "\<exists>t'. reHash h (2 ^ m) t = Inr t' \<and> wellFormed h t' \<and> m_capacity t' = 2 ^ m
     \<and> m_size t' = m_size t \<and> m_upperLoadFactor t' = m_upperLoadFactor t
     \<and> m_lowerLoadFactor t' = m_lowerLoadFactor t
     \<and> mset (concat (m_table t')) = mset (concat (m_table t)) \<and> lookup t' = lookup t"
proof -
  let ?c = "(2::int) ^ m"
  have "?c \<le> 2 ^ 62" using assms(2) by (rule power_increasing) simp
  then have c: "1 \<le> ?c" "?c \<le> LONG_MAX" by (simp_all add: LONG_MAX_def)
  have e: "entries t = Inr (concat (m_table t))"
    by (rule entries_shape [OF wellFormed_shape [OF assms(1)]])
  have l0: "int (length (replicate (nat ?c) ([] :: ('a \<times> 'b) list))) = ?c" by simp
  have p0: "placed h ?c (replicate (nat ?c) [])" by (simp add: placed_def)
  from addAll_invariant [OF c l0 p0, of "concat (m_table t)"]
  obtain tbl' where t: "addAll h (concat (m_table t)) (replicate (nat ?c) []) ?c = Inr tbl'"
    "length tbl' = length (replicate (nat ?c) ([] :: ('a \<times> 'b) list))" "placed h ?c tbl'"
    "mset (concat tbl') = mset (concat (replicate (nat ?c) [])) + mset (concat (m_table t))"
    by blast
  have ms: "mset (concat tbl') = mset (concat (m_table t))" using t(4) by simp
  have d: "distinct (map fst (concat (m_table t)))" "m_size t = int (length (concat (m_table t)))"
    using assms(1) by (simp_all add: wellFormed_def)
  note cong = map_of_mset_cong [OF ms [symmetric] d(1)]
  let ?t' = "t\<lparr>m_table := tbl', m_capacity := ?c\<rparr>"
  have r: "reHash h ?c t = Inr ?t'" using e t(1) by (simp add: reHash_def)
  have len: "int (length tbl') = ?c" using t(2) by simp
  have wf: "wellFormed h ?t'"
    unfolding wellFormed_def using assms(2) len d(2) cong(1,3) t(3) by auto
  have "lookup ?t' = lookup t" using cong(2) by (simp add: lookup_def)
  with r wf ms show ?thesis by simp
qed

lemma pushed_fields:
  "m_capacity (pushed h k v t) = m_capacity t"
  "m_size (pushed h k v t) = m_size t + 1"
  "m_upperLoadFactor (pushed h k v t) = m_upperLoadFactor t"
  "m_lowerLoadFactor (pushed h k v t) = m_lowerLoadFactor t"
  by (simp_all add: pushed_def)

lemma pushed_wellFormed:
  assumes "wellFormed h t" "lookup t k = None"
  shows "wellFormed h (pushed h k v t)"
    and "lookup (pushed h k v t) = (lookup t)(k \<mapsto> v)"
    and "mset (concat (m_table (pushed h k v t))) = add_mset (k, v) (mset (concat (m_table t)))"
proof -
  let ?i = "nat (getIndex h k (m_capacity t))"
  let ?tbl = "m_table t"
  let ?tbl1 = "?tbl[?i := ?tbl ! ?i @ [(k, v)]]"
  have il: "?i < length ?tbl" and i0: "0 \<le> getIndex h k (m_capacity t)"
    using wellFormed_index [OF assms(1), of k] by simp_all
  have tb: "m_table (pushed h k v t) = ?tbl1" by (simp add: pushed_def)
  show ms: "mset (concat (m_table (pushed h k v t))) = add_mset (k, v) (mset (concat ?tbl))"
    unfolding tb by (rule mset_concat_append [OF il])
  have d: "distinct (map fst (concat ?tbl))" "m_size t = int (length (concat ?tbl))"
    "placed h (m_capacity t) ?tbl" "int (length ?tbl) = m_capacity t"
    "\<exists>m\<le>62. m_capacity t = 2 ^ m"
    using assms(1) by (simp_all add: wellFormed_def)
  have "k \<notin> fst ` set (concat ?tbl)"
    using assms(2) by (simp add: lookup_def map_of_eq_None_iff)
  then have d1: "distinct (map fst ((k, v) # concat ?tbl))" using d(1) by simp
  have ms1: "mset ((k, v) # concat ?tbl) = mset (concat ?tbl1)" using ms tb by simp
  note cong = map_of_mset_cong [OF ms1 d1]
  have pl: "placed h (m_capacity t) ?tbl1"
    by (rule placed_append [OF d(3)]) (use i0 in simp)
  have len: "int (length (concat ?tbl1)) = m_size t + 1" using cong(3) d(2) by simp
  show "wellFormed h (pushed h k v t)"
    unfolding wellFormed_def pushed_def using d(4,5) cong(1) pl len by simp
  show "lookup (pushed h k v t) = (lookup t)(k \<mapsto> v)"
    unfolding lookup_def tb using cong(2) [symmetric] by simp
qed

lemma power_two_bound:
  assumes "(2::int) ^ n \<le> LONG_MAX"
  shows "n \<le> 62"
proof -
  have "(2::int) ^ n < 2 ^ 63" using assms by (simp add: LONG_MAX_def)
  then have "n < 63" by (rule power_less_imp_less_exp [rotated]) simp
  then show ?thesis by simp
qed

lemma keepUpperLoadFactor_wellFormed:
  assumes "wellFormed h t" "keepUpperLoadFactor h t = Inr t'"
  shows "wellFormed h t'" "m_size t' = m_size t"
    "m_upperLoadFactor t' = m_upperLoadFactor t" "m_lowerLoadFactor t' = m_lowerLoadFactor t"
    "mset (concat (m_table t')) = mset (concat (m_table t))" "lookup t' = lookup t"
    "\<exists>n. m_capacity t' = m_capacity t * 2 ^ n
        \<and> (\<forall>j<n. loadAbove (m_size t) (m_capacity t * 2 ^ j) (m_upperLoadFactor t))"
    "\<not> loadAbove (m_size t) (m_capacity t') (m_upperLoadFactor t)"
    "\<not> loadAbove (m_size t) (m_capacity t) (m_upperLoadFactor t) \<Longrightarrow> t' = t"
proof -
  let ?P = "\<lambda>t'. wellFormed h t' \<and> m_size t' = m_size t
    \<and> m_upperLoadFactor t' = m_upperLoadFactor t \<and> m_lowerLoadFactor t' = m_lowerLoadFactor t
    \<and> mset (concat (m_table t')) = mset (concat (m_table t)) \<and> lookup t' = lookup t
    \<and> (\<exists>n. m_capacity t' = m_capacity t * 2 ^ n
        \<and> (\<forall>j<n. loadAbove (m_size t) (m_capacity t * 2 ^ j) (m_upperLoadFactor t)))
    \<and> \<not> loadAbove (m_size t) (m_capacity t') (m_upperLoadFactor t)"
  have P: "?P t'"
  proof (cases "loadAbove (m_size t) (m_capacity t) (m_upperLoadFactor t)")
    case False
    then have "t' = t" using assms(2) by (simp add: keepUpperLoadFactor_def)
    moreover have "\<exists>n. m_capacity t = m_capacity t * 2 ^ n
        \<and> (\<forall>j<n. loadAbove (m_size t) (m_capacity t * 2 ^ j) (m_upperLoadFactor t))"
      by (intro exI [of _ 0]) simp
    ultimately show ?thesis using assms(1) False by simp
  next
    case True
    obtain nc where g: "growCapacity (m_size t) (m_upperLoadFactor t) (m_capacity t) = Inr nc"
      and r: "reHash h nc t = Inr t'"
      using assms(2) True by (auto simp: keepUpperLoadFactor_def split: sum.splits)
    obtain m where m: "m \<le> 62" "m_capacity t = 2 ^ m"
      using assms(1) unfolding wellFormed_def by blast
    have "0 < m_capacity t" "m_capacity t \<le> LONG_MAX"
      using wellFormed_capacity [OF assms(1)] by simp_all
    from growCapacity_Inr [OF g this]
    obtain n where n: "nc = m_capacity t * 2 ^ n" "nc \<le> LONG_MAX"
      "\<not> loadAbove (m_size t) nc (m_upperLoadFactor t)"
      "\<forall>j<n. loadAbove (m_size t) (m_capacity t * 2 ^ j) (m_upperLoadFactor t)" by blast
    have nc: "nc = 2 ^ (m + n)" using n(1) m(2) by (simp add: power_add)
    have "(2::int) ^ (m + n) \<le> LONG_MAX" using n(2) nc by simp
    then have mn: "m + n \<le> 62" by (rule power_two_bound)
    from reHash_wellFormed [OF assms(1) mn] r nc
    have "wellFormed h t'" "m_capacity t' = nc" "m_size t' = m_size t"
      "m_upperLoadFactor t' = m_upperLoadFactor t" "m_lowerLoadFactor t' = m_lowerLoadFactor t"
      "mset (concat (m_table t')) = mset (concat (m_table t))" "lookup t' = lookup t"
      by simp_all
    then show ?thesis using n by blast
  qed
  then show "wellFormed h t'" "m_size t' = m_size t"
    "m_upperLoadFactor t' = m_upperLoadFactor t" "m_lowerLoadFactor t' = m_lowerLoadFactor t"
    "mset (concat (m_table t')) = mset (concat (m_table t))" "lookup t' = lookup t"
    "\<exists>n. m_capacity t' = m_capacity t * 2 ^ n
        \<and> (\<forall>j<n. loadAbove (m_size t) (m_capacity t * 2 ^ j) (m_upperLoadFactor t))"
    "\<not> loadAbove (m_size t) (m_capacity t') (m_upperLoadFactor t)"
    by blast+
  show "t' = t" if "\<not> loadAbove (m_size t) (m_capacity t) (m_upperLoadFactor t)"
    using that assms(2) by (simp add: keepUpperLoadFactor_def)
qed

lemma keepUpperLoadFactor_returns:
  assumes "wellFormed h t" "of_int (m_size t) \<le> m_upperLoadFactor t * 2 ^ 62"
  shows "\<exists>t'. keepUpperLoadFactor h t = Inr t'"
proof (cases "loadAbove (m_size t) (m_capacity t) (m_upperLoadFactor t)")
  case False
  then show ?thesis by (simp add: keepUpperLoadFactor_def)
next
  case True
  obtain m where m: "m \<le> 62" "m_capacity t = 2 ^ m"
    using assms(1) unfolding wellFormed_def by blast
  obtain nc where g: "growCapacity (m_size t) (m_upperLoadFactor t) (m_capacity t) = Inr nc"
    using growCapacity_returns [OF m(1) assms(2)] m(2) by auto
  have "0 < m_capacity t" "m_capacity t \<le> LONG_MAX"
    using wellFormed_capacity [OF assms(1)] by simp_all
  from growCapacity_Inr [OF g this]
  obtain n where n: "nc = m_capacity t * 2 ^ n" "nc \<le> LONG_MAX" by blast
  have nc: "nc = 2 ^ (m + n)" using n(1) m(2) by (simp add: power_add)
  have "(2::int) ^ (m + n) \<le> LONG_MAX" using n(2) nc by simp
  then have mn: "m + n \<le> 62" by (rule power_two_bound)
  from reHash_wellFormed [OF assms(1) mn] nc
  obtain t' where "reHash h nc t = Inr t'" by auto
  then show ?thesis using True g by (simp add: keepUpperLoadFactor_def)
qed

lemma keepLowerLoadFactor_wellFormed:
  assumes "wellFormed h t"
  shows "\<exists>t'. keepLowerLoadFactor h t = Inr t' \<and> wellFormed h t' \<and> m_size t' = m_size t
     \<and> m_upperLoadFactor t' = m_upperLoadFactor t \<and> m_lowerLoadFactor t' = m_lowerLoadFactor t
     \<and> mset (concat (m_table t')) = mset (concat (m_table t)) \<and> lookup t' = lookup t
     \<and> m_capacity t' =
         (if loadBelow (m_size t) (m_capacity t) (m_lowerLoadFactor t) \<and> m_capacity t \<noteq> 1
          then m_capacity t div 2 else m_capacity t)
     \<and> (\<not> (loadBelow (m_size t) (m_capacity t) (m_lowerLoadFactor t) \<and> m_capacity t \<noteq> 1)
          \<longrightarrow> t' = t)"
proof (cases "loadBelow (m_size t) (m_capacity t) (m_lowerLoadFactor t) \<and> m_capacity t \<noteq> 1")
  case False
  then show ?thesis using assms by (auto simp: keepLowerLoadFactor_def)
next
  case True
  obtain m where m: "m \<le> 62" "m_capacity t = 2 ^ m"
    using assms(1) unfolding wellFormed_def by blast
  with True obtain m' where m': "m = Suc m'" by (cases m) auto
  have half: "m_capacity t sdiv TABLE_FACTOR = 2 ^ m'" "m_capacity t div 2 = 2 ^ m'"
    using m(2) m' by (simp_all add: signed_divide_int_def TABLE_FACTOR_def)
  have "m' \<le> 62" using m(1) m' by simp
  from reHash_wellFormed [OF assms this]
  show ?thesis using True half by (auto simp: keepLowerLoadFactor_def)
qed

section \<open>The operations on well-formed tables\<close>

lemma bucketErase_bucketRemove:
  "bucketErase key b = (if map_of b key = None then None else Some (bucketRemove key b))"
  by (induction b) auto

lemma bucketRemove_mset:
  "map_of b key = Some v \<Longrightarrow> mset b = add_mset (key, v) (mset (bucketRemove key b))"
  by (induction b) (auto split: if_splits)

lemma removed_fields:
  "m_capacity (removed h k t) = m_capacity t"
  "m_size (removed h k t) = m_size t - 1"
  "m_upperLoadFactor (removed h k t) = m_upperLoadFactor t"
  "m_lowerLoadFactor (removed h k t) = m_lowerLoadFactor t"
  by (simp_all add: removed_def)

lemma removed_wellFormed:
  assumes "wellFormed h t" "lookup t k = Some v"
  shows "wellFormed h (removed h k t)"
    and "lookup (removed h k t) = (lookup t)(k := None)"
    and "mset (concat (m_table t)) = add_mset (k, v) (mset (concat (m_table (removed h k t))))"
proof -
  let ?i = "nat (getIndex h k (m_capacity t))"
  let ?tbl = "m_table t"
  let ?b' = "bucketRemove k (?tbl ! ?i)"
  let ?tbl1 = "?tbl[?i := ?b']"
  have il: "?i < length ?tbl"
    using wellFormed_index [OF assms(1), of k] by simp
  have tb: "m_table (removed h k t) = ?tbl1" by (simp add: removed_def)
  have bk: "map_of (?tbl ! ?i) k = Some v"
    using wellFormed_bucket_lookup [OF assms(1), of k] assms(2) by simp
  have mb: "mset (?tbl ! ?i) = add_mset (k, v) (mset ?b')"
    by (rule bucketRemove_mset [OF bk])
  show ms: "mset (concat ?tbl) = add_mset (k, v) (mset (concat (m_table (removed h k t))))"
    unfolding tb by (rule mset_concat_erase [OF il mb])
  have d: "distinct (map fst (concat ?tbl))" "m_size t = int (length (concat ?tbl))"
    "placed h (m_capacity t) ?tbl" "int (length ?tbl) = m_capacity t"
    "\<exists>m\<le>62. m_capacity t = 2 ^ m"
    using assms(1) by (simp_all add: wellFormed_def)
  have ms1: "mset (concat ?tbl) = mset ((k, v) # concat ?tbl1)" using ms tb by simp
  note cong = map_of_mset_cong [OF ms1 d(1)]
  have nk: "k \<notin> fst ` set (concat ?tbl1)" and d1: "distinct (map fst (concat ?tbl1))"
    using cong(1) by simp_all
  have "set ?b' \<subseteq> set (?tbl ! ?i)"
    using mb by (metis mset_eq_setD set_subset_Cons list.simps(15) mset.simps(2))
  then have pl: "placed h (m_capacity t) ?tbl1" by (rule placed_subset [OF d(3)])
  have len: "int (length (concat ?tbl1)) = m_size t - 1" using cong(3) d(2) by simp
  show "wellFormed h (removed h k t)"
    unfolding wellFormed_def removed_def using d(4,5) d1 pl len by simp
  have "map_of (concat ?tbl1) k = None" using nk by (simp add: map_of_eq_None_iff)
  then have "(map_of (concat ?tbl1))(k \<mapsto> v, k := None) = map_of (concat ?tbl1)"
    by (simp add: fun_upd_idem)
  then show "lookup (removed h k t) = (lookup t)(k := None)"
    unfolding lookup_def tb using cong(2) by simp
qed

lemma insert_key_present:
  assumes "wellFormed h t" "lookup t k \<noteq> None"
  shows "insert_key h k v t = Inr (False, t)"
  using assms(2) by (simp add: insert_key_def containsKey_wellFormed [OF assms(1)])

lemma insert_key_absent:
  assumes "wellFormed h t" "lookup t k = None"
  shows "insert_key h k v t =
     (case keepUpperLoadFactor h (pushed h k v t) of
        Inl e \<Rightarrow> Inl e | Inr t' \<Rightarrow> Inr (True, t'))"
proof -
  have "int (length (m_table t)) = m_capacity t" using assms(1) by (simp add: wellFormed_def)
  from addToTable_in_range [OF wellFormed_capacity(1,2) [OF assms(1)] this]
  show ?thesis
    using assms(2) by (simp add: insert_key_def containsKey_wellFormed [OF assms(1)] pushed_def)
qed

lemma erase_absent:
  assumes "wellFormed h t" "lookup t k = None"
  shows "erase h k t = Inr (False, t)"
  using assms(2) wellFormed_bucket_lookup [OF assms(1), of k]
  by (simp add: erase_def wellFormed_index(4) [OF assms(1)] bucketErase_bucketRemove)

lemma erase_present:
  assumes "wellFormed h t" "lookup t k = Some v"
  shows "erase h k t =
     (case keepLowerLoadFactor h (removed h k t) of
        Inl e \<Rightarrow> Inl e | Inr t' \<Rightarrow> Inr (True, t'))"
  using assms(2) wellFormed_bucket_lookup [OF assms(1), of k]
  by (simp add: erase_def wellFormed_index(4) [OF assms(1)] bucketErase_bucketRemove removed_def)

lemma subscriptRec_present:
  assumes "wellFormed h t" "lookup t k = Some v"
  shows "subscriptRec h dflt k t = Some (v, t)"
  using assms(2) wellFormed_bucket_lookup [OF assms(1), of k]
  by (subst subscriptRec.simps)
     (simp add: wellFormed_index(4) [OF assms(1)] bucketFind_map_of)

lemma subscript_wellFormed:
  assumes "wellFormed h t"
  shows "subscript h dflt k t =
     (case lookup t k of
        Some v \<Rightarrow> Inr (v, t)
      | None \<Rightarrow>
          (case keepUpperLoadFactor h (pushed h k dflt t) of
             Inl e \<Rightarrow> Inl undefined_behaviour | Inr t' \<Rightarrow> Inr (dflt, t')))"
proof (cases "lookup t k")
  case (Some v)
  then show ?thesis by (simp add: subscript_def subscriptRec_present [OF assms])
next
  case None
  have bk: "bucketFind k (m_table t ! nat (getIndex h k (m_capacity t))) = None"
    using None wellFormed_bucket_lookup [OF assms, of k] by (simp add: bucketFind_map_of)
  have step: "subscriptRec h dflt k t =
      (case keepUpperLoadFactor h (pushed h k dflt t) of
         Inl e \<Rightarrow> None | Inr t' \<Rightarrow> subscriptRec h dflt k t')"
    by (subst subscriptRec.simps) (simp add: wellFormed_index(4) [OF assms] bk pushed_def)
  show ?thesis
  proof (cases "keepUpperLoadFactor h (pushed h k dflt t)")
    case (Inl e)
    then show ?thesis using None step by (simp add: subscript_def)
  next
    case (Inr t')
    note p = pushed_wellFormed [OF assms None, of dflt]
    note u = keepUpperLoadFactor_wellFormed [OF p(1) Inr]
    have "lookup t' k = Some dflt" using u(6) p(2) by simp
    then have "subscriptRec h dflt k t' = Some (dflt, t')"
      by (rule subscriptRec_present [OF u(1)])
    then show ?thesis using None step Inr by (simp add: subscript_def)
  qed
qed

lemma clear_wellFormed:
  assumes "wellFormed h t"
  shows "clear t = Inr (t\<lparr>m_table := replicate (nat (m_capacity t)) [], m_size := 0\<rparr>)"
    and "wellFormed h (t\<lparr>m_table := replicate (nat (m_capacity t)) [], m_size := 0\<rparr>)"
proof -
  have l: "int (length (m_table t)) = m_capacity t" and c: "\<exists>m\<le>62. m_capacity t = 2 ^ m"
    using assms by (simp_all add: wellFormed_def)
  have "length (m_table t) = nat (m_capacity t)" using l by linarith
  then show "clear t = Inr (t\<lparr>m_table := replicate (nat (m_capacity t)) [], m_size := 0\<rparr>)"
    using l by (simp add: clear_def)
  have "0 \<le> m_capacity t" using wellFormed_capacity(1) [OF assms] by simp
  then show "wellFormed h (t\<lparr>m_table := replicate (nat (m_capacity t)) [], m_size := 0\<rparr>)"
    unfolding wellFormed_def using c by (simp add: placed_def)
qed

lemma HashMap_new_wellFormed:
  assumes "HashMap_new l u = Inr t"
  shows "wellFormed h t" "m_capacity t = 16" "m_size t = 0" "m_upperLoadFactor t = u"
    "m_lowerLoadFactor t = l" "m_table t = replicate 16 []" "0 \<le> l" "l \<le> u" "u \<le> 1"
proof -
  have t: "t = \<lparr>m_capacity = 16, m_size = 0, m_upperLoadFactor = u, m_lowerLoadFactor = l,
                m_table = replicate 16 []\<rparr>" and b: "0 \<le> l" "l \<le> u" "u \<le> 1"
    using assms by (auto simp: HashMap_new_def INITIAL_CAPACITY_def split: if_splits)
  show "0 \<le> l" "l \<le> u" "u \<le> 1" by (rule b)+
  show "m_capacity t = 16" "m_size t = 0" "m_upperLoadFactor t = u"
    "m_lowerLoadFactor t = l" "m_table t = replicate 16 []" by (simp_all add: t)
  have "(16::int) = 2 ^ 4" by simp
  then have "\<exists>m\<le>62. (16::int) = 2 ^ m" by (intro exI [of _ 4]) simp
  then show "wellFormed h t" unfolding wellFormed_def t by (simp add: placed_def)
qed

lemma insert_key_effect:
  assumes "wellFormed h t" "insert_key h k v t = Inr (r, t')"
  shows "wellFormed h t'"
    and "m_upperLoadFactor t' = m_upperLoadFactor t"
    and "m_lowerLoadFactor t' = m_lowerLoadFactor t"
    and "r = (lookup t k = None)"
    and "lookup t' = (if r then (lookup t)(k \<mapsto> v) else lookup t)"
    and "m_size t' = (if r then m_size t + 1 else m_size t)"
    and "\<exists>n. m_capacity t' = m_capacity t * 2 ^ n"
    and "r \<Longrightarrow> \<not> loadAbove (m_size t') (m_capacity t') (m_upperLoadFactor t')"
    and "\<not> r \<Longrightarrow> t' = t"
    and "mset (concat (m_table t')) =
           (if r then add_mset (k, v) (mset (concat (m_table t))) else mset (concat (m_table t)))"
proof -
  let ?Q = "wellFormed h t' \<and> m_upperLoadFactor t' = m_upperLoadFactor t
    \<and> m_lowerLoadFactor t' = m_lowerLoadFactor t \<and> r = (lookup t k = None)
    \<and> lookup t' = (if r then (lookup t)(k \<mapsto> v) else lookup t)
    \<and> m_size t' = (if r then m_size t + 1 else m_size t)
    \<and> (\<exists>n. m_capacity t' = m_capacity t * 2 ^ n)
    \<and> (r \<longrightarrow> \<not> loadAbove (m_size t') (m_capacity t') (m_upperLoadFactor t'))
    \<and> (\<not> r \<longrightarrow> t' = t)
    \<and> mset (concat (m_table t')) =
           (if r then add_mset (k, v) (mset (concat (m_table t))) else mset (concat (m_table t)))"
  have Q: ?Q
  proof (cases "lookup t k")
    case (Some x)
    then have "r = False" "t' = t"
      using assms(2) insert_key_present [OF assms(1), of k v] by simp_all
    moreover have "\<exists>n. m_capacity t = m_capacity t * 2 ^ n" by (intro exI [of _ 0]) simp
    ultimately show ?thesis using assms(1) Some by simp
  next
    case None
    note p = pushed_wellFormed [OF assms(1) None, of v]
    have k: "keepUpperLoadFactor h (pushed h k v t) = Inr t'" and r: "r = True"
      using assms(2) insert_key_absent [OF assms(1) None, of v]
      by (auto split: sum.splits)
    note u = keepUpperLoadFactor_wellFormed [OF p(1) k]
    have "\<exists>n. m_capacity t' = m_capacity t * 2 ^ n"
      using u(7) by (auto simp: pushed_fields)
    moreover have "\<not> loadAbove (m_size t') (m_capacity t') (m_upperLoadFactor t')"
      using u(8) u(2,3) by simp
    ultimately show ?thesis
      using u(1-6) p(2,3) None r by (simp add: pushed_fields)
  qed
  show "wellFormed h t'" "m_upperLoadFactor t' = m_upperLoadFactor t"
    "m_lowerLoadFactor t' = m_lowerLoadFactor t" "r = (lookup t k = None)"
    "lookup t' = (if r then (lookup t)(k \<mapsto> v) else lookup t)"
    "m_size t' = (if r then m_size t + 1 else m_size t)"
    "\<exists>n. m_capacity t' = m_capacity t * 2 ^ n"
    "mset (concat (m_table t')) =
           (if r then add_mset (k, v) (mset (concat (m_table t))) else mset (concat (m_table t)))"
    using Q by blast+
  show "\<not> loadAbove (m_size t') (m_capacity t') (m_upperLoadFactor t')" if r
    using Q that by blast
  show "t' = t" if "\<not> r" using Q that by blast
qed




lemma erase_effect:
  assumes "wellFormed h t" "erase h k t = Inr (r, t')"
  shows "wellFormed h t'"
    and "m_upperLoadFactor t' = m_upperLoadFactor t"
    and "m_lowerLoadFactor t' = m_lowerLoadFactor t"
    and "r = (lookup t k \<noteq> None)"
    and "lookup t' = (lookup t)(k := None)"
    and "m_size t' = (if r then m_size t - 1 else m_size t)"
    and "m_capacity t' =
           (if r \<and> loadBelow (m_size t - 1) (m_capacity t) (m_lowerLoadFactor t)
               \<and> m_capacity t \<noteq> 1
            then m_capacity t div 2 else m_capacity t)"
    and "\<not> r \<Longrightarrow> t' = t"
    and "r \<Longrightarrow> \<exists>v. lookup t k = Some v
           \<and> mset (concat (m_table t)) = add_mset (k, v) (mset (concat (m_table t')))"
    and "r \<Longrightarrow> \<not> (loadBelow (m_size t - 1) (m_capacity t) (m_lowerLoadFactor t)
                  \<and> m_capacity t \<noteq> 1) \<Longrightarrow> t' = removed h k t"
proof -
  let ?Q = "wellFormed h t' \<and> m_upperLoadFactor t' = m_upperLoadFactor t
    \<and> m_lowerLoadFactor t' = m_lowerLoadFactor t \<and> r = (lookup t k \<noteq> None)
    \<and> lookup t' = (lookup t)(k := None)
    \<and> m_size t' = (if r then m_size t - 1 else m_size t)
    \<and> m_capacity t' =
           (if r \<and> loadBelow (m_size t - 1) (m_capacity t) (m_lowerLoadFactor t)
               \<and> m_capacity t \<noteq> 1
            then m_capacity t div 2 else m_capacity t)
    \<and> (\<not> r \<longrightarrow> t' = t)
    \<and> (r \<longrightarrow> (\<exists>v. lookup t k = Some v
           \<and> mset (concat (m_table t)) = add_mset (k, v) (mset (concat (m_table t')))))
    \<and> (r \<longrightarrow> \<not> (loadBelow (m_size t - 1) (m_capacity t) (m_lowerLoadFactor t)
                  \<and> m_capacity t \<noteq> 1) \<longrightarrow> t' = removed h k t)"
  have Q: ?Q
  proof (cases "lookup t k")
    case None
    then have "r = False" "t' = t"
      using assms(2) erase_absent [OF assms(1), of k] by simp_all
    moreover have "(lookup t)(k := None) = lookup t" using None by (simp add: fun_upd_idem)
    ultimately show ?thesis using assms(1) None by simp
  next
    case (Some x)
    note p = removed_wellFormed [OF assms(1) Some]
    from keepLowerLoadFactor_wellFormed [OF p(1)]
    obtain t'' where l: "keepLowerLoadFactor h (removed h k t) = Inr t''" "wellFormed h t''"
      "m_size t'' = m_size (removed h k t)"
      "m_upperLoadFactor t'' = m_upperLoadFactor (removed h k t)"
      "m_lowerLoadFactor t'' = m_lowerLoadFactor (removed h k t)"
      "mset (concat (m_table t'')) = mset (concat (m_table (removed h k t)))"
      "lookup t'' = lookup (removed h k t)"
      "m_capacity t'' =
         (if loadBelow (m_size (removed h k t)) (m_capacity (removed h k t))
               (m_lowerLoadFactor (removed h k t)) \<and> m_capacity (removed h k t) \<noteq> 1
          then m_capacity (removed h k t) div 2 else m_capacity (removed h k t))"
      "\<not> (loadBelow (m_size (removed h k t)) (m_capacity (removed h k t))
               (m_lowerLoadFactor (removed h k t)) \<and> m_capacity (removed h k t) \<noteq> 1)
          \<longrightarrow> t'' = removed h k t"
      by blast
    have r: "r = True" "t' = t''"
      using assms(2) erase_present [OF assms(1) Some] l(1) by simp_all
    have ms: "mset (concat (m_table t)) = add_mset (k, x) (mset (concat (m_table t'')))"
      using p(3) l(6) by simp
    show ?thesis
      unfolding r using l(2-5,7-9) p(2) ms Some by (simp add: removed_fields)
  qed
  show "wellFormed h t'" "m_upperLoadFactor t' = m_upperLoadFactor t"
    "m_lowerLoadFactor t' = m_lowerLoadFactor t" "r = (lookup t k \<noteq> None)"
    "lookup t' = (lookup t)(k := None)"
    "m_size t' = (if r then m_size t - 1 else m_size t)"
    "m_capacity t' =
           (if r \<and> loadBelow (m_size t - 1) (m_capacity t) (m_lowerLoadFactor t)
               \<and> m_capacity t \<noteq> 1
            then m_capacity t div 2 else m_capacity t)"
    using Q by blast+
  show "t' = t" if "\<not> r" using Q that by blast
  show "\<exists>v. lookup t k = Some v
           \<and> mset (concat (m_table t)) = add_mset (k, v) (mset (concat (m_table t')))" if r
    using Q that by blast
  show "t' = removed h k t"
    if r "\<not> (loadBelow (m_size t - 1) (m_capacity t) (m_lowerLoadFactor t)
                  \<and> m_capacity t \<noteq> 1)"
    using Q that by blast
qed

lemma subscript_effect:
  assumes "wellFormed h t" "subscript h dflt k t = Inr (x, t')"
  shows "wellFormed h t'"
    and "m_upperLoadFactor t' = m_upperLoadFactor t"
    and "m_lowerLoadFactor t' = m_lowerLoadFactor t"
    and "lookup t' = (case lookup t k of None \<Rightarrow> (lookup t)(k \<mapsto> dflt) | Some v \<Rightarrow> lookup t)"
    and "lookup t' k = Some x"
    and "m_size t' = (case lookup t k of None \<Rightarrow> m_size t + 1 | Some v \<Rightarrow> m_size t)"
    and "\<exists>n. m_capacity t' = m_capacity t * 2 ^ n"
    and "lookup t k = None \<Longrightarrow> \<not> loadAbove (m_size t') (m_capacity t') (m_upperLoadFactor t')"
    and "lookup t k \<noteq> None \<Longrightarrow> t' = t"
proof -
  let ?Q = "wellFormed h t' \<and> m_upperLoadFactor t' = m_upperLoadFactor t
    \<and> m_lowerLoadFactor t' = m_lowerLoadFactor t
    \<and> lookup t' = (case lookup t k of None \<Rightarrow> (lookup t)(k \<mapsto> dflt) | Some v \<Rightarrow> lookup t)
    \<and> lookup t' k = Some x
    \<and> m_size t' = (case lookup t k of None \<Rightarrow> m_size t + 1 | Some v \<Rightarrow> m_size t)
    \<and> (\<exists>n. m_capacity t' = m_capacity t * 2 ^ n)
    \<and> (lookup t k = None \<longrightarrow> \<not> loadAbove (m_size t') (m_capacity t') (m_upperLoadFactor t'))
    \<and> (lookup t k \<noteq> None \<longrightarrow> t' = t)"
  have Q: ?Q
  proof (cases "lookup t k")
    case (Some y)
    then have "x = y" "t' = t"
      using assms(2) subscript_wellFormed [OF assms(1), of dflt k] by simp_all
    moreover have "\<exists>n. m_capacity t = m_capacity t * 2 ^ n" by (intro exI [of _ 0]) simp
    ultimately show ?thesis using assms(1) Some by simp
  next
    case None
    note p = pushed_wellFormed [OF assms(1) None, of dflt]
    have k: "keepUpperLoadFactor h (pushed h k dflt t) = Inr t'" and x: "x = dflt"
      using assms(2) subscript_wellFormed [OF assms(1), of dflt k] None
      by (auto split: sum.splits)
    note u = keepUpperLoadFactor_wellFormed [OF p(1) k]
    have "\<exists>n. m_capacity t' = m_capacity t * 2 ^ n"
      using u(7) by (auto simp: pushed_fields)
    moreover have "\<not> loadAbove (m_size t') (m_capacity t') (m_upperLoadFactor t')"
      using u(8) u(2,3) by simp
    ultimately show ?thesis
      using u(1-6) p(2) None x by (simp add: pushed_fields)
  qed
  show "wellFormed h t'" "m_upperLoadFactor t' = m_upperLoadFactor t"
    "m_lowerLoadFactor t' = m_lowerLoadFactor t"
    "lookup t' = (case lookup t k of None \<Rightarrow> (lookup t)(k \<mapsto> dflt) | Some v \<Rightarrow> lookup t)"
    "lookup t' k = Some x"
    "m_size t' = (case lookup t k of None \<Rightarrow> m_size t + 1 | Some v \<Rightarrow> m_size t)"
    "\<exists>n. m_capacity t' = m_capacity t * 2 ^ n"
    using Q by blast+
  show "\<not> loadAbove (m_size t') (m_capacity t') (m_upperLoadFactor t')" if "lookup t k = None"
    using Q that by blast
  show "t' = t" if "lookup t k \<noteq> None" using Q that by blast
qed

section \<open>Invariants of sequences of operations\<close>

lemma loadAbove_pos:
  "0 < c \<Longrightarrow> loadAbove sz c u \<longleftrightarrow> u * of_int c < of_int sz"
  by (simp add: loadAbove_def pos_less_divide_eq)

lemma loadBelow_pos:
  "0 < c \<Longrightarrow> loadBelow sz c l \<longleftrightarrow> of_int sz < l * of_int c"
  by (simp add: loadBelow_def pos_divide_less_eq)

lemma halved_load:
  assumes "wellFormed h t" "m_capacity t \<noteq> 1"
    and "loadBelow sz (m_capacity t) l" "2 * l \<le> u"
  shows "\<not> loadAbove sz (m_capacity t div 2) u"
proof -
  obtain m where m: "m \<le> 62" "m_capacity t = 2 ^ m"
    using assms(1) unfolding wellFormed_def by blast
  with assms(2) obtain m' where m': "m = Suc m'" by (cases m) auto
  have c: "m_capacity t = 2 * 2 ^ m'" "m_capacity t div 2 = 2 ^ m'"
    using m(2) m' by simp_all
  have p: "(0::rat) < 2 ^ m'" by simp
  have "of_int sz < l * of_int (m_capacity t)"
    using assms(3) loadBelow_pos [of "m_capacity t" sz l] c(1) by simp
  then have "of_int sz < (2 * l) * 2 ^ m'" by (simp add: c(1) mult.assoc mult.left_commute)
  also have "\<dots> \<le> u * 2 ^ m'" using assms(4) p by (simp add: mult_right_mono)
  finally have "\<not> u * of_int (m_capacity t div 2) < of_int sz" by (simp add: c(2))
  then show ?thesis using loadAbove_pos [of "m_capacity t div 2" sz u] c(2) by simp
qed

lemma smaller_load:
  assumes "0 < c" "\<not> loadAbove sz c u" "sz' \<le> sz"
  shows "\<not> loadAbove sz' c u"
proof -
  have "(of_int sz' :: rat) \<le> of_int sz" using assms(3) by simp
  then show ?thesis using assms(1,2) by (simp add: loadAbove_pos)
qed

lemma Inr_snd_cases:
  assumes "(case x of Inl e \<Rightarrow> Inl e | Inr r \<Rightarrow> Inr (snd r)) = Inr t'"
  shows "\<exists>r. x = Inr (r, t')"
proof (cases x)
  case (Inl e)
  with assms show ?thesis by simp
next
  case (Inr p)
  with assms have "snd p = t'" by simp
  then have "p = (fst p, t')" by (cases p) simp
  with Inr show ?thesis by metis
qed

text \<open>One operation, on a well-formed table.\<close>

lemma apply_operation_effect:
  assumes "wellFormed h t" "apply_operation h dflt x t = Inr t'"
  shows "wellFormed h t'"
    and "m_upperLoadFactor t' = m_upperLoadFactor t"
    and "m_lowerLoadFactor t' = m_lowerLoadFactor t"
    and "(\<exists>n. m_capacity t' = m_capacity t * 2 ^ n)
          \<or> (m_capacity t \<noteq> 1 \<and> m_capacity t' = m_capacity t div 2)"
    and "0 \<le> m_upperLoadFactor t \<Longrightarrow> 2 * m_lowerLoadFactor t \<le> m_upperLoadFactor t \<Longrightarrow>
         \<not> loadAbove (m_size t) (m_capacity t) (m_upperLoadFactor t) \<Longrightarrow>
         \<not> loadAbove (m_size t') (m_capacity t') (m_upperLoadFactor t')"
proof -
  let ?cap = "\<lambda>t'. (\<exists>n. m_capacity t' = m_capacity t * 2 ^ n)
          \<or> (m_capacity t \<noteq> 1 \<and> m_capacity t' = m_capacity t div 2)"
  let ?load = "\<lambda>t'. 0 \<le> m_upperLoadFactor t \<longrightarrow> 2 * m_lowerLoadFactor t \<le> m_upperLoadFactor t \<longrightarrow>
         \<not> loadAbove (m_size t) (m_capacity t) (m_upperLoadFactor t) \<longrightarrow>
         \<not> loadAbove (m_size t') (m_capacity t') (m_upperLoadFactor t')"
  have same: "\<exists>n. m_capacity t = m_capacity t * 2 ^ n" by (intro exI [of _ 0]) simp
  have cpos: "0 < m_capacity t" using wellFormed_capacity(1) [OF assms(1)] by simp
  have Q: "wellFormed h t' \<and> m_upperLoadFactor t' = m_upperLoadFactor t
     \<and> m_lowerLoadFactor t' = m_lowerLoadFactor t \<and> ?cap t' \<and> ?load t'"
  proof (cases x)
    case (Insert k v)
    then obtain r where r: "insert_key h k v t = Inr (r, t')"
      using assms(2) Inr_snd_cases [of "insert_key h k v t" t'] by auto
    note e = insert_key_effect [OF assms(1) r]
    have "?load t'"
    proof (cases r)
      case True with e(8) show ?thesis by simp
    next
      case False with e(9) show ?thesis by simp
    qed
    with e(1,2,3,7) show ?thesis by blast
  next
    case (Erase k)
    then obtain r where r: "erase h k t = Inr (r, t')"
      using assms(2) Inr_snd_cases [of "erase h k t" t'] by auto
    note e = erase_effect [OF assms(1) r]
    let ?halve = "r \<and> loadBelow (m_size t - 1) (m_capacity t) (m_lowerLoadFactor t)
               \<and> m_capacity t \<noteq> 1"
    have "?cap t'"
    proof (cases ?halve)
      case True with e(7) show ?thesis by simp
    next
      case False
      then have "m_capacity t' = m_capacity t" using e(7) by auto
      then show ?thesis using same by simp
    qed
    moreover have "?load t'"
    proof (intro impI)
      assume u: "0 \<le> m_upperLoadFactor t" "2 * m_lowerLoadFactor t \<le> m_upperLoadFactor t"
        "\<not> loadAbove (m_size t) (m_capacity t) (m_upperLoadFactor t)"
      show "\<not> loadAbove (m_size t') (m_capacity t') (m_upperLoadFactor t')"
      proof (cases ?halve)
        case True
        then have "m_capacity t' = m_capacity t div 2" "m_size t' = m_size t - 1"
          using e(6,7) by simp_all
        then show ?thesis
          using halved_load [OF assms(1) _ _ u(2), of "m_size t - 1"] True e(2) by simp
      next
        case False
        then have "m_capacity t' = m_capacity t" using e(7) by auto
        moreover have "m_size t' \<le> m_size t" using e(6) by simp
        ultimately have "m_capacity t' = m_capacity t" "m_size t' \<le> m_size t" by simp_all
        then show ?thesis using smaller_load [OF cpos u(3)] e(2) by simp
      qed
    qed
    ultimately show ?thesis using e(1,2,3) by blast
  next
    case (Subscript k)
    then obtain y where r: "subscript h dflt k t = Inr (y, t')"
      using assms(2) Inr_snd_cases [of "subscript h dflt k t" t'] by auto
    note e = subscript_effect [OF assms(1) r]
    have "?load t'"
    proof (cases "lookup t k")
      case None with e(8) show ?thesis by simp
    next
      case (Some v) with e(9) show ?thesis by simp
    qed
    with e(1,2,3,7) show ?thesis by blast
  next
    case Clear
    note c = clear_wellFormed [OF assms(1)]
    have t': "t' = t\<lparr>m_table := replicate (nat (m_capacity t)) [], m_size := 0\<rparr>"
      using assms(2) Clear c(1) by simp
    have "\<not> loadAbove (m_size t') (m_capacity t') (m_upperLoadFactor t')"
      if "0 \<le> m_upperLoadFactor t"
    proof -
      have "(0::rat) \<le> of_int (m_capacity t)" using cpos by simp
      then have "0 \<le> m_upperLoadFactor t * of_int (m_capacity t)"
        using that by (rule mult_nonneg_nonneg [rotated])
      then show ?thesis using cpos by (simp add: t' loadAbove_pos not_less)
    qed
    then show ?thesis using c(2) same by (auto simp: t')
  qed
  show "wellFormed h t'" "m_upperLoadFactor t' = m_upperLoadFactor t"
    "m_lowerLoadFactor t' = m_lowerLoadFactor t" "?cap t'"
    using Q by blast+
  show "\<not> loadAbove (m_size t') (m_capacity t') (m_upperLoadFactor t')"
    if "0 \<le> m_upperLoadFactor t" "2 * m_lowerLoadFactor t \<le> m_upperLoadFactor t"
       "\<not> loadAbove (m_size t) (m_capacity t) (m_upperLoadFactor t)"
    using Q that by blast
qed

lemma run_effect:
  "wellFormed h t \<Longrightarrow> run h dflt xs t = Inr t' \<Longrightarrow>
     wellFormed h t' \<and> m_upperLoadFactor t' = m_upperLoadFactor t
     \<and> m_lowerLoadFactor t' = m_lowerLoadFactor t
     \<and> (0 \<le> m_upperLoadFactor t \<longrightarrow> 2 * m_lowerLoadFactor t \<le> m_upperLoadFactor t \<longrightarrow>
         \<not> loadAbove (m_size t) (m_capacity t) (m_upperLoadFactor t) \<longrightarrow>
         \<not> loadAbove (m_size t') (m_capacity t') (m_upperLoadFactor t'))"
proof (induction xs arbitrary: t)
  case Nil
  then show ?case by simp
next
  case (Cons x xs)
  then obtain t1 where t1: "apply_operation h dflt x t = Inr t1" "run h dflt xs t1 = Inr t'"
    by (cases "apply_operation h dflt x t") auto
  note e = apply_operation_effect [OF Cons.prems(1) t1(1)]
  from Cons.IH [OF e(1) t1(2)] e(2,3,5) show ?case by auto
qed

section \<open>The example tables are what the code computes\<close>

lemma example_empty_new: "HashMap_new (1 / 4) (3 / 4) = Inr example_empty"
  by code_simp

lemma example_narrow_new: "HashMap_new (1 / 32) (1 / 16) = Inr example_narrow"
  by code_simp

lemma example_one_insert: "insert_key hash_id 1 10 example_empty = Inr (True, example_one)"
  by code_simp

lemma example_narrow_one_insert:
  "insert_key hash_id 1 10 example_narrow = Inr (True, example_narrow_one)"
  by code_simp

lemma example_narrow_two_insert:
  "insert_key hash_id 2 20 example_narrow_one = Inr (True, example_narrow_two)"
  by code_simp

lemma example_wellFormed:
  "wellFormed hash_id example_empty" "wellFormed hash_id example_one"
  "wellFormed hash_id example_narrow" "wellFormed hash_id example_narrow_one"
  "wellFormed hash_id example_narrow_two"
proof -
  show e: "wellFormed hash_id example_empty"
    by (rule HashMap_new_wellFormed(1) [OF example_empty_new])
  show "wellFormed hash_id example_one"
    by (rule insert_key_effect(1) [OF e example_one_insert])
  show n: "wellFormed hash_id example_narrow"
    by (rule HashMap_new_wellFormed(1) [OF example_narrow_new])
  show n1: "wellFormed hash_id example_narrow_one"
    by (rule insert_key_effect(1) [OF n example_narrow_one_insert])
  show "wellFormed hash_id example_narrow_two"
    by (rule insert_key_effect(1) [OF n1 example_narrow_two_insert])
qed

lemma example_halved_erase: "erase hash_id 1 example_one = Inr (True, example_halved)"
  by code_simp

lemma erase_returns:
  assumes "wellFormed h t"
  shows "\<exists>r t'. erase h k t = Inr (r, t')"
proof (cases "lookup t k")
  case None
  then show ?thesis using erase_absent [OF assms] by blast
next
  case (Some v)
  obtain t' where "keepLowerLoadFactor h (removed h k t) = Inr t'"
    using keepLowerLoadFactor_wellFormed [OF removed_wellFormed(1) [OF assms Some]] by blast
  then have "erase h k t = Inr (True, t')" using erase_present [OF assms Some] by simp
  then show ?thesis by blast
qed


section \<open>The bulk-load constructor\<close>

lemma bucketAssign_keys: "map fst (bucketAssign k v b) = map fst b"
  by (induction b) auto

lemma bucketAssign_other:
  "a \<noteq> k \<Longrightarrow> map_of (bucketAssign k v b) a = map_of b a"
  by (induction b) auto

lemma bucketAssign_update:
  "(map_of (bucketAssign k v b))(k \<mapsto> v) = (map_of b)(k \<mapsto> v)"
proof
  fix a
  show "((map_of (bucketAssign k v b))(k \<mapsto> v)) a = ((map_of b)(k \<mapsto> v)) a"
    by (cases "a = k") (simp_all add: bucketAssign_other)
qed

lemma bucketAssign_hit:
  "map_of b k \<noteq> None \<Longrightarrow> map_of (bucketAssign k v b) k = Some v"
  by (induction b) auto

lemma bucketAssign_map_of:
  assumes "map_of b k \<noteq> None"
  shows "map_of (bucketAssign k v b) = (map_of b)(k \<mapsto> v)"
proof -
  have "map_of (bucketAssign k v b) = (map_of (bucketAssign k v b))(k \<mapsto> v)"
    using bucketAssign_hit [OF assms, of v] by (simp add: fun_upd_idem)
  then show ?thesis by (simp add: bucketAssign_update)
qed

lemma placed_same_keys:
  assumes "placed h c tbl" "map fst b' = map fst (tbl ! i)"
  shows "placed h c (tbl[i := b'])"
  unfolding placed_def
proof (intro allI impI ballI)
  fix j p
  assume j: "j < length (tbl[i := b'])" and p: "p \<in> set (tbl[i := b'] ! j)"
  show "getIndex h (fst p) c = int j"
  proof (cases "j = i")
    case True
    with j p have "fst p \<in> set (map fst b')" by auto
    then have "fst p \<in> set (map fst (tbl ! i))" using assms(2) by simp
    then obtain q where q: "q \<in> set (tbl ! i)" "fst q = fst p" by auto
    have "i < length tbl" using j True by simp
    then have "\<forall>p \<in> set (tbl ! i). getIndex h (fst p) c = int i"
      using assms(1) unfolding placed_def by blast
    then have "getIndex h (fst q) c = int i" using q(1) by blast
    with q(2) True show ?thesis by simp
  next
    case False
    with j p assms(1) show ?thesis unfolding placed_def by simp
  qed
qed

lemma assigned_wellFormed:
  assumes "wellFormed h t" "lookup t k \<noteq> None"
  shows "wellFormed h (assigned h k v t)"
    and "lookup (assigned h k v t) = (lookup t)(k \<mapsto> v)"
    and "m_capacity (assigned h k v t) = m_capacity t"
    and "m_upperLoadFactor (assigned h k v t) = m_upperLoadFactor t"
    and "m_lowerLoadFactor (assigned h k v t) = m_lowerLoadFactor t"
proof -
  let ?i = "nat (getIndex h k (m_capacity t))"
  let ?tbl = "m_table t"
  let ?b' = "bucketAssign k v (?tbl ! ?i)"
  let ?tbl1 = "?tbl[?i := ?b']"
  have il: "?i < length ?tbl" and i0: "0 \<le> getIndex h k (m_capacity t)"
    using wellFormed_index [OF assms(1), of k] by simp_all
  have tb: "m_table (assigned h k v t) = ?tbl1" by (simp add: assigned_def)
  show f: "m_capacity (assigned h k v t) = m_capacity t"
    "m_upperLoadFactor (assigned h k v t) = m_upperLoadFactor t"
    "m_lowerLoadFactor (assigned h k v t) = m_lowerLoadFactor t"
    by (simp_all add: assigned_def)
  have d: "distinct (map fst (concat ?tbl))" "m_size t = int (length (concat ?tbl))"
    "placed h (m_capacity t) ?tbl" "int (length ?tbl) = m_capacity t"
    "\<exists>m\<le>62. m_capacity t = 2 ^ m"
    using assms(1) by (simp_all add: wellFormed_def)
  have keys: "map fst (concat ?tbl1) = map fst (concat ?tbl)"
    using concat_update(1) [OF il, of ?b'] concat_update(2) [OF il]
    by (simp add: bucketAssign_keys)
  then have len: "length (concat ?tbl1) = length (concat ?tbl)" by (metis length_map)
  have pl: "placed h (m_capacity t) ?tbl1"
    by (rule placed_same_keys [OF d(3)]) (simp add: bucketAssign_keys)
  show wf: "wellFormed h (assigned h k v t)"
    unfolding wellFormed_def assigned_def using d keys len pl by simp
  have bk: "map_of (?tbl ! ?i) k \<noteq> None"
    using wellFormed_bucket_lookup [OF assms(1), of k] assms(2) by simp
  show "lookup (assigned h k v t) = (lookup t)(k \<mapsto> v)"
  proof
    fix k'
    let ?j = "nat (getIndex h k' (m_capacity t))"
    have j0: "0 \<le> getIndex h k' (m_capacity t)"
      using wellFormed_index [OF assms(1), of k'] by simp
    have l1: "lookup (assigned h k v t) k' = map_of (?tbl1 ! ?j) k'"
      using wellFormed_bucket_lookup [OF wf, of k'] by (simp add: f tb)
    have l0: "lookup t k' = map_of (?tbl ! ?j) k'"
      using wellFormed_bucket_lookup [OF assms(1), of k'] by simp
    show "lookup (assigned h k v t) k' = ((lookup t)(k \<mapsto> v)) k'"
    proof (cases "?j = ?i")
      case True
      then have "?tbl1 ! ?j = ?b'" using il by simp
      then show ?thesis using l1 l0 True bucketAssign_map_of [OF bk, of v] by simp
    next
      case False
      then have "k' \<noteq> k" by auto
      moreover have "?tbl1 ! ?j = ?tbl ! ?j" using False by simp
      ultimately show ?thesis using l1 l0 by simp
    qed
  qed
qed

lemma wellFormed_size_card:
  assumes "wellFormed h t"
  shows "m_size t = int (card (dom (lookup t)))"
proof -
  have d: "distinct (map fst (concat (m_table t)))" "m_size t = int (length (concat (m_table t)))"
    using assms by (simp_all add: wellFormed_def)
  have "dom (lookup t) = set (map fst (concat (m_table t)))"
    by (simp add: lookup_def dom_map_of_conv_image_fst)
  then have "card (dom (lookup t)) = length (map fst (concat (m_table t)))"
    using distinct_card [OF d(1)] by simp
  then show ?thesis using d(2) by simp
qed

lemma fromPairsLoop_wellFormed:
  "wellFormed h t \<Longrightarrow>
   \<exists>t'. fromPairsLoop h ps t = Inr t' \<and> wellFormed h t' \<and> m_capacity t' = m_capacity t
     \<and> m_upperLoadFactor t' = m_upperLoadFactor t \<and> m_lowerLoadFactor t' = m_lowerLoadFactor t
     \<and> lookup t' = lookup t ++ map_of (rev ps)"
proof (induction ps arbitrary: t)
  case Nil
  then show ?case by simp
next
  case (Cons p ps)
  let ?k = "fst p" and ?v = "snd p"
  have u: "lookup t ++ map_of (rev (p # ps)) = (lookup t)(?k \<mapsto> ?v) ++ map_of (rev ps)"
    by (cases p) simp
  show ?case
  proof (cases "lookup t ?k")
    case None
    note q = pushed_wellFormed [OF Cons.prems None, of ?v]
    have "int (length (m_table t)) = m_capacity t"
      using Cons.prems by (simp add: wellFormed_def)
    from addToTable_in_range [OF wellFormed_capacity(1,2) [OF Cons.prems] this, of h ?k ?v]
    have step: "fromPairsLoop h (p # ps) t = fromPairsLoop h ps (pushed h ?k ?v t)"
      using None by (simp add: containsKey_wellFormed [OF Cons.prems] pushed_def)
    from Cons.IH [OF q(1)]
    obtain t' where t': "fromPairsLoop h ps (pushed h ?k ?v t) = Inr t'" "wellFormed h t'"
      "m_capacity t' = m_capacity (pushed h ?k ?v t)"
      "m_upperLoadFactor t' = m_upperLoadFactor (pushed h ?k ?v t)"
      "m_lowerLoadFactor t' = m_lowerLoadFactor (pushed h ?k ?v t)"
      "lookup t' = lookup (pushed h ?k ?v t) ++ map_of (rev ps)" by blast
    have "fromPairsLoop h (p # ps) t = Inr t'" using step t'(1) by (simp only:)
    moreover have "lookup t' = lookup t ++ map_of (rev (p # ps))"
      using t'(6) q(2) u by (simp only:)
    moreover have "m_capacity t' = m_capacity t" "m_upperLoadFactor t' = m_upperLoadFactor t"
      "m_lowerLoadFactor t' = m_lowerLoadFactor t"
      using t'(3-5) by (simp_all only: pushed_fields)
    ultimately show ?thesis using t'(2) by blast
  next
    case (Some x)
    then have ne: "lookup t ?k \<noteq> None" by simp
    note q = assigned_wellFormed [OF Cons.prems ne, of ?v]
    have step: "fromPairsLoop h (p # ps) t = fromPairsLoop h ps (assigned h ?k ?v t)"
      using Some
      by (simp add: containsKey_wellFormed [OF Cons.prems] wellFormed_index(4) [OF Cons.prems]
            assigned_def)
    from Cons.IH [OF q(1)]
    obtain t' where t': "fromPairsLoop h ps (assigned h ?k ?v t) = Inr t'" "wellFormed h t'"
      "m_capacity t' = m_capacity (assigned h ?k ?v t)"
      "m_upperLoadFactor t' = m_upperLoadFactor (assigned h ?k ?v t)"
      "m_lowerLoadFactor t' = m_lowerLoadFactor (assigned h ?k ?v t)"
      "lookup t' = lookup (assigned h ?k ?v t) ++ map_of (rev ps)" by blast
    have "fromPairsLoop h (p # ps) t = Inr t'" using step t'(1) by (simp only:)
    moreover have "lookup t' = lookup t ++ map_of (rev (p # ps))"
      using t'(6) q(2) u by (simp only:)
    moreover have "m_capacity t' = m_capacity t" "m_upperLoadFactor t' = m_upperLoadFactor t"
      "m_lowerLoadFactor t' = m_lowerLoadFactor t"
      using t'(3-5) by (simp_all only: q(3-5))
    ultimately show ?thesis using t'(2) by blast
  qed
qed

lemma HashMap_default_eq: "HashMap_default = Inr default_table"
  by (simp add: HashMap_default_def HashMap_new_def DEFAULT_LOWER_LOAD_FACTOR_def
        DEFAULT_UPPER_LOAD_FACTOR_def INITIAL_CAPACITY_def default_table_def)

lemma default_table_wellFormed: "wellFormed h default_table"
  using HashMap_default_eq HashMap_new_wellFormed(1) [of _ _ default_table h]
  by (simp add: HashMap_default_def)

lemma default_table_lookup: "lookup default_table = Map.empty"
  by (simp add: lookup_def default_table_def)

lemma fromPairs_unfold:
  "fromPairs h ks vs =
     (if length ks \<noteq> length vs then Inl invalid_argument
      else if INT_MAX < int (length ks) then Inl undefined_behaviour
      else (case fromPairsLoop h (zip ks vs) default_table of
              Inl e \<Rightarrow> Inl e | Inr t \<Rightarrow> keepUpperLoadFactor h t))"
  by (simp add: fromPairs_def HashMap_default_eq)

lemma fromPairs_Inr_wellFormed:
  assumes "fromPairs h ks vs = Inr t"
  shows "wellFormed h t"
proof -
  obtain t1 where t1: "fromPairsLoop h (zip ks vs) default_table = Inr t1" "wellFormed h t1"
    using fromPairsLoop_wellFormed [OF default_table_wellFormed] by blast
  have "keepUpperLoadFactor h t1 = Inr t"
    using assms t1(1) by (simp add: fromPairs_unfold split: if_splits)
  then show ?thesis by (rule keepUpperLoadFactor_wellFormed(1) [OF t1(2)])
qed

text \<open>
  Every table a constructor returns, and every table a completed sequence of operations
  makes of it, is well-formed.
\<close>

lemma reachable_wellFormed:
  assumes "HashMap_new lower upper = Inr t0 \<or> fromPairs h ks vs = Inr t0"
    and "run h dflt xs t0 = Inr t"
  shows "wellFormed h t"
proof -
  have "wellFormed h t0"
    using assms(1) HashMap_new_wellFormed(1) fromPairs_Inr_wellFormed by blast
  then show ?thesis using run_effect [OF _ assms(2)] by blast
qed

text \<open>
  On vectors of one length and at most \<^verbatim>\<open>INT_MAX\<close> elements the constructor returns a
  table. The loop leaves the capacity at 16, whatever the number of keys; the one check of
  the upper bound after it gives the first of the capacities 16, 32, 64, ... at which the
  number of distinct keys is at most 3/4 of the capacity, and the loop's table itself when
  16 is that capacity. Every key maps to the value at its last position in the key vector.
\<close>

lemma fromPairs_returns:
  assumes "length ks = length vs" "int (length ks) \<le> INT_MAX"
  shows "\<exists>t1 t. fromPairsLoop h (zip ks vs) default_table = Inr t1
     \<and> m_capacity t1 = INITIAL_CAPACITY \<and> m_size t1 = int (card (set ks))
     \<and> keepUpperLoadFactor h t1 = Inr t
     \<and> fromPairs h ks vs = Inr t \<and> wellFormed h t
     \<and> m_size t = int (card (set ks))
     \<and> m_upperLoadFactor t = DEFAULT_UPPER_LOAD_FACTOR
     \<and> m_lowerLoadFactor t = DEFAULT_LOWER_LOAD_FACTOR
     \<and> (\<exists>n. m_capacity t = INITIAL_CAPACITY * 2 ^ n
           \<and> (\<forall>j<n. loadAbove (int (card (set ks))) (INITIAL_CAPACITY * 2 ^ j)
                        DEFAULT_UPPER_LOAD_FACTOR))
     \<and> \<not> loadAbove (m_size t) (m_capacity t) (m_upperLoadFactor t)
     \<and> (\<not> loadAbove (int (card (set ks))) INITIAL_CAPACITY DEFAULT_UPPER_LOAD_FACTOR
          \<longrightarrow> t = t1)
     \<and> lookup t = map_of (rev (zip ks vs))
     \<and> (\<forall>k. at_key h k t =
           (case map_of (rev (zip ks vs)) k of
              None \<Rightarrow> Inl out_of_range | Some v \<Rightarrow> Inr v))"
proof -
  from fromPairsLoop_wellFormed [OF default_table_wellFormed, of h "zip ks vs"]
  obtain t1 where t1: "fromPairsLoop h (zip ks vs) default_table = Inr t1" "wellFormed h t1"
    "m_capacity t1 = m_capacity (default_table :: ('a, 'b) HashMap)"
    "m_upperLoadFactor t1 = m_upperLoadFactor (default_table :: ('a, 'b) HashMap)"
    "m_lowerLoadFactor t1 = m_lowerLoadFactor (default_table :: ('a, 'b) HashMap)"
    "lookup t1 = lookup default_table ++ map_of (rev (zip ks vs))" by blast
  have c1: "m_capacity t1 = INITIAL_CAPACITY"
    using t1(3) by (simp add: default_table_def INITIAL_CAPACITY_def)
  have u1: "m_upperLoadFactor t1 = DEFAULT_UPPER_LOAD_FACTOR"
    using t1(4) by (simp add: default_table_def DEFAULT_UPPER_LOAD_FACTOR_def)
  have l1: "m_lowerLoadFactor t1 = DEFAULT_LOWER_LOAD_FACTOR"
    using t1(5) by (simp add: default_table_def DEFAULT_LOWER_LOAD_FACTOR_def)
  have l: "lookup t1 = map_of (rev (zip ks vs))" using t1(6) by (simp add: default_table_lookup)
  have "dom (lookup t1) = set (map fst (zip ks vs))"
    unfolding l by (simp add: dom_map_of_conv_image_fst)
  then have "dom (lookup t1) = set ks" using assms(1) by simp
  then have sz: "m_size t1 = int (card (set ks))"
    using wellFormed_size_card [OF t1(2)] by simp
  have "card (set ks) \<le> length ks" by (rule card_length)
  then have "m_size t1 \<le> INT_MAX" using sz assms(2) by linarith
  also have "INT_MAX \<le> 2 ^ 61" by (simp add: INT_MAX_def)
  finally have "m_size t1 \<le> 2 ^ 61" .
  then have "(of_int (m_size t1) :: rat) \<le> of_int (2 ^ 61)" by (simp only: of_int_le_iff)
  also have "\<dots> \<le> m_upperLoadFactor t1 * 2 ^ 62" by (simp add: t1(4) default_table_def)
  finally obtain t where t: "keepUpperLoadFactor h t1 = Inr t"
    using keepUpperLoadFactor_returns [OF t1(2)] by blast
  note u = keepUpperLoadFactor_wellFormed [OF t1(2) t]
  have f: "fromPairs h ks vs = Inr t"
    using assms t1(1) t by (simp add: fromPairs_unfold)
  have lt: "lookup t = map_of (rev (zip ks vs))" using u(6) l by simp
  have st: "m_size t = int (card (set ks))" using u(2) sz by simp
  have ut: "m_upperLoadFactor t = DEFAULT_UPPER_LOAD_FACTOR" using u(3) u1 by simp
  have lw: "m_lowerLoadFactor t = DEFAULT_LOWER_LOAD_FACTOR" using u(4) l1 by simp
  have g: "\<exists>n. m_capacity t = INITIAL_CAPACITY * 2 ^ n
           \<and> (\<forall>j<n. loadAbove (int (card (set ks))) (INITIAL_CAPACITY * 2 ^ j)
                        DEFAULT_UPPER_LOAD_FACTOR)"
    using u(7) c1 u1 sz by simp
  have b: "\<not> loadAbove (m_size t) (m_capacity t) (m_upperLoadFactor t)"
    using u(8) u(2,3) by simp
  have s: "\<not> loadAbove (int (card (set ks))) INITIAL_CAPACITY DEFAULT_UPPER_LOAD_FACTOR
          \<longrightarrow> t = t1"
    using u(9) c1 u1 sz by simp
  have a: "\<forall>k. at_key h k t =
          (case map_of (rev (zip ks vs)) k of None \<Rightarrow> Inl out_of_range | Some v \<Rightarrow> Inr v)"
    using at_key_wellFormed [OF u(1)] lt by simp
  from t1(1) c1 sz t f u(1) st ut lw g b s lt a show ?thesis by blast
qed

lemma fromPairs_thirteen_keys:
  "fromPairs hash_id [0..<13] (map int [0..<13]) = Inr example_thirteen"
  "fromPairsLoop hash_id (zip [0..<13] (map int [0..<13])) default_table
     = Inr (default_table\<lparr>m_size := 13,
          m_table := map (\<lambda>i. [(i, int i)]) [0..<13] @ replicate 3 []\<rparr>)"
  "loadAbove 13 16 (3 / 4)" "\<not> loadAbove 13 32 (3 / 4)"
  "fromPairs hash_id [1, 2, 1] [10, 20, 30]
       = Inr (example_empty\<lparr>m_size := 2,
                m_table := (replicate 16 [])[1 := [(1, 30)], 2 := [(2, 20)]]\<rparr>)"
  "fromPairs hash_id [1, 1] [1 :: int] = Inl invalid_argument"
  by code_simp+

lemma example_two_run:
  "run hash_id 0 [Insert 1 10, Insert 17 20] example_empty = Inr example_two_a"
  "run hash_id 0 [Insert 17 20, Insert 1 10] example_empty = Inr example_two_b"
  by code_simp+

lemma example_two_wellFormed:
  "wellFormed hash_id example_two_a" "wellFormed hash_id example_two_b"
  using run_effect [OF example_wellFormed(1) example_two_run(1)]
        run_effect [OF example_wellFormed(1) example_two_run(2)]
  by blast+

section \<open>Equality on well-formed tables\<close>

lemma allMatch_wellFormed:
  assumes "wellFormed h t"
  shows "allMatch h t ps = Inr (\<forall>p\<in>set ps. lookup t (fst p) = Some (snd p))"
proof (induction ps)
  case Nil
  show ?case by simp
next
  case (Cons p ps)
  show ?case
  proof (cases "lookup t (fst p)")
    case None
    then show ?thesis by (simp add: at_key_wellFormed [OF assms])
  next
    case (Some v)
    then show ?thesis using Cons by (simp add: at_key_wellFormed [OF assms])
  qed
qed

lemma at_key_Inr_iff:
  assumes "wellFormed h t"
  shows "at_key h k t = Inr v \<longleftrightarrow> lookup t k = Some v"
  by (simp add: at_key_wellFormed [OF assms] split: option.splits)

lemma entries_lookup:
  assumes "wellFormed h t"
  shows "(k, v) \<in> set (concat (m_table t)) \<longleftrightarrow> lookup t k = Some v"
proof -
  have "distinct (map fst (concat (m_table t)))" using assms by (simp add: wellFormed_def)
  then show ?thesis by (simp add: lookup_def map_of_eq_Some_iff)
qed

lemma same_pairs_same_lookup:
  assumes "wellFormed h t" "wellFormed h other" "m_size t = m_size other"
    and "\<forall>p\<in>set (concat (m_table other)). lookup t (fst p) = Some (snd p)"
  shows "lookup t = lookup other"
proof
  fix k
  have le: "lookup t k = Some v" if "lookup other k = Some v" for k v
  proof -
    have "(k, v) \<in> set (concat (m_table other))"
      using that entries_lookup [OF assms(2)] by simp
    with assms(4) show ?thesis by fastforce
  qed
  then have sub: "dom (lookup other) \<subseteq> dom (lookup t)" by auto
  have "finite (dom (lookup t))" by (simp add: lookup_def finite_dom_map_of)
  moreover have "card (dom (lookup other)) = card (dom (lookup t))"
    using assms(3) wellFormed_size_card [OF assms(1)] wellFormed_size_card [OF assms(2)]
    by simp
  ultimately have d: "dom (lookup other) = dom (lookup t)"
    using sub by (simp add: card_subset_eq)
  show "lookup t k = lookup other k"
  proof (cases "lookup other k")
    case None
    then have "k \<notin> dom (lookup t)" using d by auto
    with None show ?thesis by auto
  next
    case (Some v)
    with le [OF Some] show ?thesis by simp
  qed
qed

lemma operator_eq_wellFormed:
  assumes "wellFormed h t" "wellFormed h other"
  shows "operator_eq h t other =
     Inr (m_size t = m_size other \<and> m_upperLoadFactor t = m_upperLoadFactor other
          \<and> m_lowerLoadFactor t = m_lowerLoadFactor other \<and> m_capacity t = m_capacity other
          \<and> (\<forall>p\<in>set (concat (m_table other)). lookup t (fst p) = Some (snd p)))"
proof (cases "m_size t = m_size other \<and> m_upperLoadFactor t = m_upperLoadFactor other
          \<and> m_lowerLoadFactor t = m_lowerLoadFactor other \<and> m_capacity t = m_capacity other")
  case True
  then show ?thesis
    by (simp add: operator_eq_def entries_shape [OF wellFormed_shape [OF assms(2)]]
          allMatch_wellFormed [OF assms(1)])
next
  case False
  then have "operator_eq h t other = Inr False" unfolding operator_eq_def by metis
  then show ?thesis using False by auto
qed

lemma operator_eq_lookup:
  assumes "wellFormed h t" "wellFormed h other"
  shows "operator_eq h t other =
     Inr (m_upperLoadFactor t = m_upperLoadFactor other
          \<and> m_lowerLoadFactor t = m_lowerLoadFactor other \<and> m_capacity t = m_capacity other
          \<and> lookup t = lookup other)"
proof -
  have "m_size t = m_size other
          \<and> (\<forall>p\<in>set (concat (m_table other)). lookup t (fst p) = Some (snd p))
        \<longleftrightarrow> lookup t = lookup other"
  proof
    assume "m_size t = m_size other
          \<and> (\<forall>p\<in>set (concat (m_table other)). lookup t (fst p) = Some (snd p))"
    then show "lookup t = lookup other"
      using same_pairs_same_lookup [OF assms] by blast
  next
    assume e: "lookup t = lookup other"
    then have "m_size t = m_size other"
      using wellFormed_size_card [OF assms(1)] wellFormed_size_card [OF assms(2)] by simp
    moreover have "lookup t (fst p) = Some (snd p)" if "p \<in> set (concat (m_table other))" for p
      using that entries_lookup [OF assms(2), of "fst p" "snd p"] e by simp
    ultimately show "m_size t = m_size other
          \<and> (\<forall>p\<in>set (concat (m_table other)). lookup t (fst p) = Some (snd p))"
      by blast
  qed
  then show ?thesis unfolding operator_eq_wellFormed [OF assms] by auto
qed

lemma insert_key_no_growth:
  assumes "wellFormed h t" "lookup t k = None"
    and "\<not> loadAbove (m_size t + 1) (m_capacity t) (m_upperLoadFactor t)"
  shows "insert_key h k v t = Inr (True, pushed h k v t)"
  using assms(3)
  by (simp add: insert_key_absent [OF assms(1,2)] keepUpperLoadFactor_def pushed_fields)

lemma two_inserts_default:
  assumes "a \<noteq> b"
  shows "run h dflt [Insert a v, Insert b w] default_table
           = Inr (pushed h b w (pushed h a v default_table))"
    and "wellFormed h (pushed h b w (pushed h a v default_table))"
    and "lookup (pushed h b w (pushed h a v default_table)) = [a \<mapsto> v, b \<mapsto> w]"
proof -
  let ?t1 = "pushed h a v (default_table :: ('a, 'b) HashMap)"
  have n0: "lookup (default_table :: ('a, 'b) HashMap) a = None"
    by (simp add: default_table_lookup)
  note p1 = pushed_wellFormed [OF default_table_wellFormed n0, where v = v and h = h]
  have i1: "insert_key h a v default_table = Inr (True, ?t1)"
    by (rule insert_key_no_growth [OF default_table_wellFormed n0])
       (simp add: default_table_def loadAbove_def)
  have n1: "lookup ?t1 b = None" using p1(2) assms by (simp add: default_table_lookup)
  note p2 = pushed_wellFormed [OF p1(1) n1, where v = w]
  have i2: "insert_key h b w ?t1 = Inr (True, pushed h b w ?t1)"
    by (rule insert_key_no_growth [OF p1(1) n1])
       (simp add: pushed_fields default_table_def loadAbove_def)
  show "run h dflt [Insert a v, Insert b w] default_table = Inr (pushed h b w ?t1)"
    using i1 i2 by simp
  show "wellFormed h (pushed h b w ?t1)" by (rule p2(1))
  show "lookup (pushed h b w ?t1) = [a \<mapsto> v, b \<mapsto> w]"
    using p2(2) p1(2) by (simp add: default_table_lookup)
qed

lemma one_insert_default:
  shows "run h dflt [Insert a v] default_table = Inr (pushed h a v default_table)"
    and "wellFormed h (pushed h a v default_table)"
    and "lookup (pushed h a v default_table) = [a \<mapsto> v]"
proof -
  have n0: "lookup (default_table :: ('a, 'b) HashMap) a = None"
    by (simp add: default_table_lookup)
  note p1 = pushed_wellFormed [OF default_table_wellFormed n0, where v = v and h = h]
  have i1: "insert_key h a v default_table = Inr (True, pushed h a v default_table)"
    by (rule insert_key_no_growth [OF default_table_wellFormed n0])
       (simp add: default_table_def loadAbove_def)
  show "run h dflt [Insert a v] default_table = Inr (pushed h a v default_table)"
    using i1 by simp
  show "wellFormed h (pushed h a v default_table)" by (rule p1(1))
  show "lookup (pushed h a v default_table) = [a \<mapsto> v]"
    using p1(2) by (simp add: default_table_lookup)
qed

text \<open>
  The constructor throws exactly when the upper bound is below the lower one, the lower
  one is negative or the upper one exceeds 1.
\<close>

lemma HashMap_new_throws_iff:
  "(HashMap_new l u :: error + ('k, 'v) HashMap) = Inl invalid_argument
     \<longleftrightarrow> u < l \<or> l < 0 \<or> 1 < u"
  by (simp add: HashMap_new_def)

section \<open>Claims\<close>

text \<open>
  C8. Iterating a table from \<^verbatim>\<open>begin()\<close> to \<^verbatim>\<open>end()\<close> visits the buckets in order, each
  bucket in insertion order, skipping the empty ones: the visited sequence is the
  concatenation of the buckets, whatever the distribution of the pairs over them. On a
  well-formed table it holds no pair twice, has as many pairs as the size says, and its
  pairs are exactly the stored ones, those \<open>(k, v)\<close> with \<^verbatim>\<open>at(k)\<close> returning \<open>v\<close>.
\<close>

theorem iteration_visits_buckets_in_order:
  assumes "shape t"
  shows "entries t = Inr (concat (m_table t))
     \<and> (wellFormed h t \<longrightarrow>
           distinct (concat (m_table t)) \<and> int (length (concat (m_table t))) = m_size t
           \<and> (\<forall>k v. (k, v) \<in> set (concat (m_table t)) \<longleftrightarrow> at_key h k t = Inr v))"
proof (intro conjI impI)
  show "entries t = Inr (concat (m_table t))" using assms by (rule entries_shape)
next
  assume wf: "wellFormed h t"
  then have "distinct (map fst (concat (m_table t)))" by (simp add: wellFormed_def)
  then show "distinct (concat (m_table t))" by (simp add: distinct_map)
  show "int (length (concat (m_table t))) = m_size t" using wf by (simp add: wellFormed_def)
  show "\<forall>k v. (k, v) \<in> set (concat (m_table t)) \<longleftrightarrow> at_key h k t = Inr v"
    using entries_lookup [OF wf] at_key_Inr_iff [OF wf] by blast
qed

theorem iteration_visits_buckets_in_order_witness:
  "shape example_three \<and> wellFormed hash_id example_three
   \<and> m_table example_three = (replicate 16 [])[1 := [(1, 10), (17, 20)], 2 := [(2, 30)]]
   \<and> entries example_three = Inr [(1, 10), (17, 20), (2, 30)]
   \<and> m_size example_three = 3"
proof -
  have r: "run hash_id 0 [Insert 1 10, Insert 17 20, Insert 2 30] example_empty
             = Inr example_three" by code_simp
  have wf: "wellFormed hash_id example_three"
    using run_effect [OF example_wellFormed(1) r] by blast
  have c: "concat (m_table example_three) = [(1, 10), (17, 20), (2, 30)]"
    "m_table example_three = (replicate 16 [])[1 := [(1, 10), (17, 20)], 2 := [(2, 30)]]"
    by code_simp+
  from iteration_visits_buckets_in_order [OF wellFormed_shape [OF wf], of hash_id]
       wellFormed_shape [OF wf] wf c
  show ?thesis by simp
qed

text \<open>
  C1. The claim: after each completed operation of a sequence of inserts and erases on a
  new table, \<open>lowerLoadFactor \<le> size / capacity \<le> upperLoadFactor\<close> whenever the capacity
  exceeds 1. The lower bound fails: \<^verbatim>\<open>insert\<close> only calls \<^verbatim>\<open>_keepUpperLoadFactor\<close>, so one
  insert into the default table leaves 1 pair in 16 buckets, below 0.25.
\<close>

theorem load_factor_bounds_counterexample:
  "HashMap_new (1 / 4) (3 / 4) = Inr example_empty
   \<and> run hash_id 0 [Insert 1 10] example_empty = Inr example_one
   \<and> 1 < m_capacity example_one
   \<and> of_int (m_size example_one) / of_int (m_capacity example_one)
       < m_lowerLoadFactor example_one"
  by code_simp

text \<open>
  C1 as amended: for constructor bounds with \<open>2 * lowerLoadFactor \<le> upperLoadFactor\<close> (the
  defaults 0.25 and 0.75 among them), after every sequence of operations that completes on
  a newly constructed table, \<open>0 \<le> size / capacity \<le> upperLoadFactor\<close>. The lower bound is
  no invariant: only \<^verbatim>\<open>erase\<close> checks it, and halves the capacity once.
\<close>

theorem load_factor_upper_bound:
  assumes "HashMap_new lower upper = Inr t0" "2 * lower \<le> upper" "run h dflt xs t0 = Inr t"
  shows "0 \<le> of_int (m_size t) / (of_int (m_capacity t) :: rat)
     \<and> of_int (m_size t) / of_int (m_capacity t) \<le> m_upperLoadFactor t
     \<and> m_upperLoadFactor t = upper"
proof -
  note n = HashMap_new_wellFormed [OF assms(1)]
  have wf0: "wellFormed h t0" by (rule n(1))
  have i: "\<not> loadAbove (m_size t0) (m_capacity t0) (m_upperLoadFactor t0)"
    using n(2,3,4,7,8) by (simp add: loadAbove_def)
  have b: "0 \<le> m_upperLoadFactor t0" "2 * m_lowerLoadFactor t0 \<le> m_upperLoadFactor t0"
    using n(4,5,7,8) assms(2) by simp_all
  from run_effect [OF wf0 assms(3)]
  have e: "wellFormed h t" "m_upperLoadFactor t = m_upperLoadFactor t0"
    "0 \<le> m_upperLoadFactor t0 \<longrightarrow> 2 * m_lowerLoadFactor t0 \<le> m_upperLoadFactor t0 \<longrightarrow>
       \<not> loadAbove (m_size t0) (m_capacity t0) (m_upperLoadFactor t0) \<longrightarrow>
       \<not> loadAbove (m_size t) (m_capacity t) (m_upperLoadFactor t)"
    by blast+
  have r: "wellFormed h t" "m_upperLoadFactor t = upper"
    "\<not> loadAbove (m_size t) (m_capacity t) (m_upperLoadFactor t)"
    using e i b n(4) by blast+
  have c: "0 < m_capacity t" using wellFormed_capacity(1) [OF r(1)] by simp
  have "0 \<le> m_size t" using r(1) by (simp add: wellFormed_def)
  then have "0 \<le> of_int (m_size t) / (of_int (m_capacity t) :: rat)" using c by simp
  moreover have "of_int (m_size t) / of_int (m_capacity t) \<le> m_upperLoadFactor t"
    using r(3) c by (simp add: loadAbove_def not_less)
  ultimately show ?thesis using r(2) by simp
qed

theorem load_factor_upper_bound_witness:
  "HashMap_new (1 / 32) (1 / 16) = Inr example_narrow
   \<and> 2 * (1 / 32) \<le> (1 / 16 :: rat)
   \<and> run hash_id 0 [Insert 1 10, Insert 2 20, Erase 1, Erase 2] example_narrow
       = Inr (example_narrow\<lparr>m_table := replicate 16 []\<rparr>)
   \<and> of_int (m_size (example_narrow\<lparr>m_table := replicate 16 []\<rparr>))
       / of_int (m_capacity (example_narrow\<lparr>m_table := replicate 16 []\<rparr>))
       \<le> m_upperLoadFactor (example_narrow\<lparr>m_table := replicate 16 []\<rparr>)"
proof -
  have b: "2 * (1 / 32) \<le> (1 / 16 :: rat)" by simp
  have r: "run hash_id 0 [Insert 1 10, Insert 2 20, Erase 1, Erase 2] example_narrow
       = Inr (example_narrow\<lparr>m_table := replicate 16 []\<rparr>)"
    by code_simp
  from load_factor_upper_bound [OF example_narrow_new b r] example_narrow_new b r
  show ?thesis by simp
qed

text \<open>
  The hypothesis on the bounds is needed: with bounds 0.5 and 0.6 an erase halves a table
  of 7 pairs to 8 buckets, above 0.6.
\<close>

lemma narrow_bounds_exceed_upper:
  "map_sum id (\<lambda>t. (m_capacity t, m_size t))
     (run hash_id 0 (map (\<lambda>i. Insert i 0) [0..<8] @ [Erase 0])
        \<lparr>m_capacity = 16, m_size = 0, m_upperLoadFactor = 3 / 5, m_lowerLoadFactor = 1 / 2,
         m_table = replicate 16 []\<rparr>)
   = Inr (8, 7)"
  by code_simp

text \<open>
  C2. On every well-formed table: when \<^verbatim>\<open>insert(k, v)\<close> returns true, \<^verbatim>\<open>at(k)\<close> on the resulting
  table returns \<open>v\<close>; and \<^verbatim>\<open>erase(k)\<close> returns, with a table on which \<^verbatim>\<open>containsKey(k)\<close> is
  false, whether it found the key or not.
\<close>

theorem insert_then_at_erase_then_containsKey:
  assumes "wellFormed h t"
  shows "(insert_key h k v t = Inr (True, ta) \<longrightarrow> at_key h k ta = Inr v)
     \<and> (\<exists>r tb. erase h k t = Inr (r, tb) \<and> containsKey h k tb = Inr False)"
proof (intro conjI impI)
  assume i: "insert_key h k v t = Inr (True, ta)"
  note e = insert_key_effect [OF assms i]
  have "lookup ta k = Some v" using e(5) by simp
  then show "at_key h k ta = Inr v" by (simp add: at_key_wellFormed [OF e(1)])
next
  obtain r tb where i: "erase h k t = Inr (r, tb)" using erase_returns [OF assms] by blast
  note e = erase_effect [OF assms i]
  have "lookup tb k = None" using e(5) by simp
  then have "containsKey h k tb = Inr False" by (simp add: containsKey_wellFormed [OF e(1)])
  with i show "\<exists>r tb. erase h k t = Inr (r, tb) \<and> containsKey h k tb = Inr False" by blast
qed

theorem insert_then_at_erase_then_containsKey_witness:
  "wellFormed hash_id example_empty
   \<and> insert_key hash_id 1 10 example_empty = Inr (True, example_one)
   \<and> at_key hash_id 1 example_one = Inr 10
   \<and> wellFormed hash_id example_one
   \<and> erase hash_id 1 example_one = Inr (True, example_halved)
   \<and> containsKey hash_id 1 example_halved = Inr False"
  using insert_then_at_erase_then_containsKey
          [OF example_wellFormed(1), where k = 1 and v = 10 and ta = example_one]
        insert_then_at_erase_then_containsKey
          [OF example_wellFormed(2), where k = 1]
        example_wellFormed(1,2) example_one_insert example_halved_erase
  by simp




text \<open>
  C4. On every well-formed table: \<^verbatim>\<open>erase(key)\<close> returns false and the unchanged table when
  the key is absent. When it is present, erase returns true; exactly the pair of the key
  is gone, the size is one less, and the capacity is halved, once, exactly when the new
  load factor is below the lower bound and the capacity is not 1 (so it stays at least 1);
  without halving the table is the old one with the pair removed from its bucket.
\<close>

theorem erase_specification:
  assumes "wellFormed h t"
  shows "(containsKey h key t = Inr False \<longrightarrow> erase h key t = Inr (False, t))
     \<and> (containsKey h key t = Inr True \<longrightarrow>
         (\<exists>t' v. erase h key t = Inr (True, t')
            \<and> at_key h key t = Inr v
            \<and> mset (concat (m_table t)) = add_mset (key, v) (mset (concat (m_table t')))
            \<and> m_size t' = m_size t - 1
            \<and> m_capacity t' =
                 (if loadBelow (m_size t - 1) (m_capacity t) (m_lowerLoadFactor t)
                     \<and> m_capacity t \<noteq> 1
                  then m_capacity t div 2 else m_capacity t)
            \<and> 1 \<le> m_capacity t'
            \<and> wellFormed h t'
            \<and> (\<not> (loadBelow (m_size t - 1) (m_capacity t) (m_lowerLoadFactor t)
                     \<and> m_capacity t \<noteq> 1) \<longrightarrow> t' = removed h key t)))"
proof (intro conjI impI)
  assume "containsKey h key t = Inr False"
  then have "lookup t key = None" by (simp add: containsKey_wellFormed [OF assms])
  then show "erase h key t = Inr (False, t)" by (rule erase_absent [OF assms])
next
  assume "containsKey h key t = Inr True"
  then obtain v where v: "lookup t key = Some v"
    by (auto simp: containsKey_wellFormed [OF assms])
  note p = removed_wellFormed [OF assms v]
  obtain t' where k: "keepLowerLoadFactor h (removed h key t) = Inr t'"
    using keepLowerLoadFactor_wellFormed [OF p(1)] by blast
  have e: "erase h key t = Inr (True, t')"
    using erase_present [OF assms v] k by simp
  note f = erase_effect [OF assms e]
  have a: "at_key h key t = Inr v" using v by (simp add: at_key_wellFormed [OF assms])
  have "\<exists>w. lookup t key = Some w
           \<and> mset (concat (m_table t)) = add_mset (key, w) (mset (concat (m_table t')))"
    by (rule f(9)) simp
  then have ms: "mset (concat (m_table t)) = add_mset (key, v) (mset (concat (m_table t')))"
    using v by auto
  have c: "m_capacity t' =
                 (if loadBelow (m_size t - 1) (m_capacity t) (m_lowerLoadFactor t)
                     \<and> m_capacity t \<noteq> 1
                  then m_capacity t div 2 else m_capacity t)"
    using f(7) by simp
  have r: "\<not> (loadBelow (m_size t - 1) (m_capacity t) (m_lowerLoadFactor t)
                     \<and> m_capacity t \<noteq> 1) \<longrightarrow> t' = removed h key t"
    using f(10) by blast
  have "m_size t' = m_size t - 1" using f(6) by simp
  with e a ms c r f(1) wellFormed_capacity(1) [OF f(1)]
  show "\<exists>t' v. erase h key t = Inr (True, t')
            \<and> at_key h key t = Inr v
            \<and> mset (concat (m_table t)) = add_mset (key, v) (mset (concat (m_table t')))
            \<and> m_size t' = m_size t - 1
            \<and> m_capacity t' =
                 (if loadBelow (m_size t - 1) (m_capacity t) (m_lowerLoadFactor t)
                     \<and> m_capacity t \<noteq> 1
                  then m_capacity t div 2 else m_capacity t)
            \<and> 1 \<le> m_capacity t'
            \<and> wellFormed h t'
            \<and> (\<not> (loadBelow (m_size t - 1) (m_capacity t) (m_lowerLoadFactor t)
                     \<and> m_capacity t \<noteq> 1) \<longrightarrow> t' = removed h key t)"
    by blast
qed

theorem erase_specification_witness:
  "wellFormed hash_id example_one
   \<and> containsKey hash_id 2 example_one = Inr False
   \<and> erase hash_id 2 example_one = Inr (False, example_one)
   \<and> containsKey hash_id 1 example_one = Inr True
   \<and> erase hash_id 1 example_one = Inr (True, example_halved)
   \<and> m_size example_halved = m_size example_one - 1
   \<and> m_capacity example_halved = m_capacity example_one div 2"
proof -
  have c1: "containsKey hash_id 2 example_one = Inr False" by code_simp
  have c2: "containsKey hash_id 1 example_one = Inr True" by code_simp
  have l: "loadBelow (m_size example_one - 1) (m_capacity example_one)
             (m_lowerLoadFactor example_one) \<and> m_capacity example_one \<noteq> 1" by code_simp
  from erase_specification [OF example_wellFormed(2), where key = 2]
       erase_specification [OF example_wellFormed(2), where key = 1]
       example_wellFormed(2) c1 c2 l example_halved_erase
  show ?thesis by auto
qed



text \<open>
  C6. The claim: whenever the two vectors have one length the bulk-load constructor
  inserts the pairs in order, the last value of a repeated key winning, and checks the
  upper bound once at the end. The loop counts with \<^verbatim>\<open>int i\<close> against
  \<^verbatim>\<open>keyVector.size()\<close>, while \<^verbatim>\<open>_size\<close> is a \<^verbatim>\<open>long\<close> and the loop of \<^verbatim>\<open>clear\<close> counts with
  \<^verbatim>\<open>long i\<close>: on vectors of \<open>2^31 + 1\<close> elements, \<open>2^31\<close> times the key 0 and then the key
  1, \<^verbatim>\<open>++i\<close> overflows at \<^verbatim>\<open>INT_MAX\<close> before the last pair is reached. On vectors of at most
  \<^verbatim>\<open>INT_MAX\<close> elements the constructor does what the claim says (\<open>fromPairs_returns\<close>).
\<close>

theorem fromPairs_int_index_overflows:
  "length (replicate (2 ^ 31) (0 :: nat) @ [1]) = length (replicate (2 ^ 31) (0 :: int) @ [1])
   \<and> fromPairs hash_id (replicate (2 ^ 31) 0 @ [1]) (replicate (2 ^ 31) 0 @ [1])
       = Inl undefined_behaviour"
  by (simp add: fromPairs_unfold INT_MAX_def)

text \<open>
  C5. A table made by a constructor has capacity 16; after every sequence of operations
  that completes on it the capacity is a power of two, hence at least 1; and one more
  operation either multiplies the capacity by a power of two (growth by doubling, or no
  change) or halves it, which it does only from a capacity other than 1.
\<close>

theorem capacity_power_of_two:
  assumes "HashMap_new lower upper = Inr t0 \<or> fromPairs h ks vs = Inr t0"
    and "run h dflt xs t0 = Inr t"
  shows "(\<exists>m. m_capacity t = 2 ^ m) \<and> 1 \<le> m_capacity t
     \<and> (\<forall>x t'. apply_operation h dflt x t = Inr t' \<longrightarrow>
           (\<exists>n. m_capacity t' = m_capacity t * 2 ^ n)
           \<or> (m_capacity t \<noteq> 1 \<and> m_capacity t' = m_capacity t div 2))"
proof -
  have "wellFormed h t0"
    using assms(1) HashMap_new_wellFormed(1) fromPairs_Inr_wellFormed by blast
  then have wf: "wellFormed h t" using run_effect [OF _ assms(2)] by blast
  then have "\<exists>m. m_capacity t = 2 ^ m" unfolding wellFormed_def by blast
  moreover have "1 \<le> m_capacity t" by (rule wellFormed_capacity(1) [OF wf])
  moreover have "(\<exists>n. m_capacity t' = m_capacity t * 2 ^ n)
           \<or> (m_capacity t \<noteq> 1 \<and> m_capacity t' = m_capacity t div 2)"
    if "apply_operation h dflt x t = Inr t'" for x t'
    by (rule apply_operation_effect(4) [OF wf that])
  ultimately show ?thesis by blast
qed

theorem capacity_power_of_two_witness:
  "HashMap_new (1 / 32) (1 / 16) = Inr example_narrow
   \<and> run hash_id 0 [Insert 1 10, Insert 2 20] example_narrow = Inr example_narrow_two
   \<and> (\<exists>m. m_capacity example_narrow_two = 2 ^ m)
   \<and> m_capacity example_narrow_two = 32"
proof -
  have r: "run hash_id 0 [Insert 1 10, Insert 2 20] example_narrow = Inr example_narrow_two"
    by code_simp
  have c: "m_capacity example_narrow_two = 32" by code_simp
  from capacity_power_of_two [OF disjI1 [OF example_narrow_new] r] example_narrow_new r c
  show ?thesis by blast
qed

text \<open>
  C7. Two well-formed tables compare equal exactly when they have the same size, the same
  two bounds, the same capacity, and every pair of \<open>other\<close> is found by \<^verbatim>\<open>at\<close> in the first
  table with the same value. Given the other conditions that is the case exactly when
  the two tables map the same keys to the same values, whatever the order of the pairs in
  the buckets. The default table after \<open>insert(a, v); insert(b, w)\<close> equals the one after
  \<open>insert(b, w); insert(a, v)\<close> and differs from the one after \<open>insert(a, v)\<close> alone.
\<close>

theorem operator_eq_specification:
  assumes "wellFormed h t" "wellFormed h other"
  shows "operator_eq h t other =
           Inr (m_size t = m_size other \<and> m_upperLoadFactor t = m_upperLoadFactor other
                \<and> m_lowerLoadFactor t = m_lowerLoadFactor other
                \<and> m_capacity t = m_capacity other
                \<and> (\<forall>p\<in>set (concat (m_table other)). at_key h (fst p) t = Inr (snd p)))
     \<and> operator_eq h t other =
           Inr (m_upperLoadFactor t = m_upperLoadFactor other
                \<and> m_lowerLoadFactor t = m_lowerLoadFactor other
                \<and> m_capacity t = m_capacity other \<and> lookup t = lookup other)
     \<and> (a \<noteq> b \<longrightarrow>
          (\<exists>tab tba ta.
              run h dflt [Insert a v, Insert b w] default_table = Inr tab
            \<and> run h dflt [Insert b w, Insert a v] default_table = Inr tba
            \<and> run h dflt [Insert a v] default_table = Inr ta
            \<and> operator_eq h tab tba = Inr True \<and> operator_eq h tba tab = Inr True
            \<and> operator_eq h tab ta = Inr False \<and> operator_eq h ta tab = Inr False))"
proof (intro conjI impI)
  show "operator_eq h t other =
           Inr (m_size t = m_size other \<and> m_upperLoadFactor t = m_upperLoadFactor other
                \<and> m_lowerLoadFactor t = m_lowerLoadFactor other
                \<and> m_capacity t = m_capacity other
                \<and> (\<forall>p\<in>set (concat (m_table other)). at_key h (fst p) t = Inr (snd p)))"
    by (simp add: operator_eq_wellFormed [OF assms] at_key_Inr_iff [OF assms(1)])
  show "operator_eq h t other =
           Inr (m_upperLoadFactor t = m_upperLoadFactor other
                \<and> m_lowerLoadFactor t = m_lowerLoadFactor other
                \<and> m_capacity t = m_capacity other \<and> lookup t = lookup other)"
    by (rule operator_eq_lookup [OF assms])
next
  assume ne: "a \<noteq> b"
  let ?tab = "pushed h b w (pushed h a v default_table)"
  let ?tba = "pushed h a v (pushed h b w default_table)"
  let ?ta = "pushed h a v default_table"
  note ab = two_inserts_default [OF ne, where h = h and v = v and w = w]
  note ba = two_inserts_default [OF ne [symmetric], where h = h and v = w and w = v]
  note a = one_insert_default [where h = h and a = a and v = v]
  have l: "lookup ?tab = lookup ?tba" using ab(3) ba(3) ne by (simp add: fun_upd_twist)
  have "lookup ?tab b \<noteq> lookup ?ta b" using ab(3) a(3) ne by simp
  then have l': "lookup ?tab \<noteq> lookup ?ta" "lookup ?ta \<noteq> lookup ?tab" by metis+
  have "operator_eq h ?tab ?tba = Inr True" "operator_eq h ?tba ?tab = Inr True"
    using l by (simp_all add: operator_eq_lookup [OF ab(2) ba(2)]
                  operator_eq_lookup [OF ba(2) ab(2)] pushed_fields)
  moreover have "operator_eq h ?tab ?ta = Inr False" "operator_eq h ?ta ?tab = Inr False"
    using l' by (simp_all add: operator_eq_lookup [OF ab(2) a(2)]
                  operator_eq_lookup [OF a(2) ab(2)])
  ultimately show "\<exists>tab tba ta.
              run h dflt [Insert a v, Insert b w] default_table = Inr tab
            \<and> run h dflt [Insert b w, Insert a v] default_table = Inr tba
            \<and> run h dflt [Insert a v] default_table = Inr ta
            \<and> operator_eq h tab tba = Inr True \<and> operator_eq h tba tab = Inr True
            \<and> operator_eq h tab ta = Inr False \<and> operator_eq h ta tab = Inr False"
    using ab(1) ba(1) a(1) by blast
qed

theorem operator_eq_specification_witness:
  "wellFormed hash_id example_two_a \<and> wellFormed hash_id example_two_b
   \<and> m_table example_two_a \<noteq> m_table example_two_b
   \<and> operator_eq hash_id example_two_a example_two_b = Inr True
   \<and> lookup example_two_a = lookup example_two_b
   \<and> wellFormed hash_id example_one
   \<and> operator_eq hash_id example_two_a example_one = Inr False
   \<and> (1 :: nat) \<noteq> 17"
proof -
  have n: "m_table example_two_a \<noteq> m_table example_two_b" by code_simp
  have e: "operator_eq hash_id example_two_a example_two_b = Inr True" by code_simp
  have f: "operator_eq hash_id example_two_a example_one = Inr False" by code_simp
  have c: "m_upperLoadFactor example_two_a = m_upperLoadFactor example_two_b"
    "m_lowerLoadFactor example_two_a = m_lowerLoadFactor example_two_b"
    "m_capacity example_two_a = m_capacity example_two_b" by code_simp+
  from operator_eq_specification [OF example_two_wellFormed, where a = 1 and b = 17
         and dflt = 0 and v = 10 and w = 20]
  have "operator_eq hash_id example_two_a example_two_b =
           Inr (m_upperLoadFactor example_two_a = m_upperLoadFactor example_two_b
                \<and> m_lowerLoadFactor example_two_a = m_lowerLoadFactor example_two_b
                \<and> m_capacity example_two_a = m_capacity example_two_b
                \<and> lookup example_two_a = lookup example_two_b)"
    by blast
  then have l: "lookup example_two_a = lookup example_two_b" using e c by simp
  have o: "(1 :: nat) \<noteq> 17" by simp
  show ?thesis
    using example_two_wellFormed example_wellFormed(2) n e f l o by blast
qed

text \<open>
  C9. The claim: construction fails whenever \<open>lower \<ge> upper\<close>, equal bounds included.
  The constructor compares \<^verbatim>\<open>_upperLoadFactor < _lowerLoadFactor\<close>, so equal bounds pass the
  check that throws \<^verbatim>\<open>INVALID_LOAD_FACTORS_LOWER_HIGHER\<close>, whose text says that the lower
  bound must be smaller than the upper one: \<^verbatim>\<open>HashMap(0.5, 0.5)\<close> returns a table.
\<close>

theorem HashMap_new_equal_bounds:
  "HashMap_new (1 / 2) (1 / 2) =
     Inr \<lparr>m_capacity = 16, m_size = 0, m_upperLoadFactor = 1 / 2, m_lowerLoadFactor = 1 / 2,
          m_table = replicate 16 []\<rparr>"
  by (simp add: HashMap_new_def INITIAL_CAPACITY_def)

end
